theory Spec2Isabelle
  imports Complex_Main
begin

section \<open>Data model\<close>

text \<open>
  The program evaluates three trading strategies (RSI, MACD crossover, Bollinger
  breakout) over a series of candles.  The C++ \<open>double\<close> is modelled by \<open>real\<close>:
  rounding and overflow are not modelled.  The one operation of the strategies that
  leaves the finite numbers on finite input, the division by an entry price of zero, is
  modelled with the IEEE results (infinities and NaN) on the type \<open>xreal\<close> below.
  \<open>int\<close> counters are modelled by unbounded integers (a counter never exceeds
  the number of bars) and \<open>size_t\<close> indices by \<open>nat\<close>.
\<close>

record Candle =
  close :: real

text \<open>A \<open>double\<close> that may be an infinity or a NaN.\<close>

datatype xreal = Fin real | PInf | MInf | NaN

record TradeResult =
  success_rate :: real
  avg_return :: xreal
  total_trades :: int
  signal_positions :: "int list"

text \<open>
  \<open>OutOfRange\<close>: a \<open>vector::operator[]\<close> read outside the vector (undefined
  behaviour in C++).  \<open>NonFinite\<close>: a helper's \<open>double\<close> result is an infinity or a
  NaN, which \<open>real\<close> does not represent (only reached with a period the strategies
  never pass).
\<close>

datatype error = OutOfRange | NonFinite

definition vec_at :: "'a list \<Rightarrow> nat \<Rightarrow> error + 'a" where
  "vec_at v i = (if i < length v then Inr (v ! i) else Inl OutOfRange)"

text \<open>The same read with a C++ \<open>int\<close> index.\<close>

definition vec_at_int :: "'a list \<Rightarrow> int \<Rightarrow> error + 'a" where
  "vec_at_int v i = (if 0 \<le> i \<and> i < int (length v) then Inr (v ! nat i) else Inl OutOfRange)"

section \<open>Arithmetic on doubles that may be infinite\<close>

text \<open>\<open>a / b\<close> for finite \<open>a\<close> and \<open>b\<close> (the zero is the positive zero).\<close>

definition xdiv :: "real \<Rightarrow> real \<Rightarrow> xreal" where
  "xdiv a b = (if b \<noteq> 0 then Fin (a / b)
               else if 0 < a then PInf else if a < 0 then MInf else NaN)"

fun xadd :: "xreal \<Rightarrow> xreal \<Rightarrow> xreal" where
  "xadd (Fin a) (Fin b) = Fin (a + b)"
| "xadd NaN _ = NaN"
| "xadd _ NaN = NaN"
| "xadd PInf MInf = NaN"
| "xadd MInf PInf = NaN"
| "xadd PInf _ = PInf"
| "xadd _ PInf = PInf"
| "xadd MInf _ = MInf"
| "xadd _ MInf = MInf"

text \<open>\<open>x > t\<close> for a finite \<open>t\<close>: a comparison with NaN is false.\<close>

fun xgt :: "xreal \<Rightarrow> real \<Rightarrow> bool" where
  "xgt (Fin a) t = (a > t)"
| "xgt PInf t = True"
| "xgt MInf t = False"
| "xgt NaN t = False"

text \<open>\<open>x / t\<close> and \<open>x * c\<close> for finite \<open>t\<close> and \<open>c\<close>.\<close>

fun xdiv_by :: "xreal \<Rightarrow> real \<Rightarrow> xreal" where
  "xdiv_by (Fin a) t = xdiv a t"
| "xdiv_by PInf t = (if t < 0 then MInf else PInf)"
| "xdiv_by MInf t = (if t < 0 then PInf else MInf)"
| "xdiv_by NaN t = NaN"

fun xmul_by :: "xreal \<Rightarrow> real \<Rightarrow> xreal" where
  "xmul_by (Fin a) c = Fin (a * c)"
| "xmul_by PInf c = (if 0 < c then PInf else if c < 0 then MInf else NaN)"
| "xmul_by MInf c = (if 0 < c then MInf else if c < 0 then PInf else NaN)"
| "xmul_by NaN c = NaN"

section \<open>Indicator library\<close>

subsection \<open>Simple and exponential moving average\<close>

text \<open>The loop \<open>for (i = start - period + 1; i <= start; ++i) sum += data[i]\<close>.\<close>

fun sma_sum :: "real list \<Rightarrow> int list \<Rightarrow> real \<Rightarrow> error + real" where
  "sma_sum data [] acc = Inr acc"
| "sma_sum data (i # is) acc =
     (case vec_at_int data i of
        Inl e \<Rightarrow> Inl e
      | Inr x \<Rightarrow> sma_sum data is (acc + x))"

definition sma :: "real list \<Rightarrow> int \<Rightarrow> int \<Rightarrow> error + real" where
  "sma data start period =
     (if start < period - 1 then Inr 0
      else case sma_sum data [start - period + 1 .. start] 0 of
        Inl e \<Rightarrow> Inl e
      | Inr acc \<Rightarrow>
          if period = 0 then Inl NonFinite else Inr (acc / real_of_int period))"

definition ema :: "real list \<Rightarrow> int \<Rightarrow> int \<Rightarrow> real \<Rightarrow> error + real" where
  "ema data start period prev_ema =
     (case vec_at_int data start of
        Inl e \<Rightarrow> Inl e
      | Inr x \<Rightarrow>
          if period + 1 = 0 then Inl NonFinite
          else let k = 2 / (real_of_int period + 1) in Inr (x * k + prev_ema * (1 - k)))"

subsection \<open>Relative strength index\<close>

text \<open>
  The loop of \<open>calculate_rsi\<close>: the pair is \<open>(gain, loss)\<close>.
\<close>

fun rsi_sums :: "real list \<Rightarrow> int list \<Rightarrow> real \<times> real \<Rightarrow> error + real \<times> real" where
  "rsi_sums closes [] gl = Inr gl"
| "rsi_sums closes (i # is) (gain, loss) =
     (case vec_at_int closes i of
        Inl e \<Rightarrow> Inl e
      | Inr c \<Rightarrow>
          (case vec_at_int closes (i - 1) of
             Inl e \<Rightarrow> Inl e
           | Inr p \<Rightarrow>
               (let change = c - p in
                if change > 0 then rsi_sums closes is (gain + change, loss)
                else rsi_sums closes is (gain, loss - change))))"

definition calculate_rsi :: "real list \<Rightarrow> int \<Rightarrow> int \<Rightarrow> error + real" where
  "calculate_rsi closes current_index period =
     (if current_index < period then Inr 50
      else case rsi_sums closes [current_index - period + 1 .. current_index] (0, 0) of
        Inl e \<Rightarrow> Inl e
      | Inr (gain, loss) \<Rightarrow>
          (let rs = (if loss = 0 then 0 else gain / loss)
           in Inr (100 - 100 / (1 + rs))))"

section \<open>Strategy evaluators\<close>

subsection \<open>The position state machine shared by the three loops\<close>

text \<open>The local variables of a strategy's scanning loop.\<close>

record scan_state =
  trades :: int
  profitables :: int
  total_ret :: xreal
  holding :: bool
  entry :: real
  signals :: "int list"

definition init_state :: "nat \<Rightarrow> scan_state" where
  "init_state n =
     \<lparr>trades = 0, profitables = 0, total_ret = Fin 0, holding = False, entry = 0,
      signals = replicate n 0\<rparr>"

text \<open>
  The \<open>if (!holding && enter) {...} else if (holding && leave) {...}\<close> statement that
  the three loops share, at bar \<open>idx\<close>; \<open>enter\<close> and \<open>leave\<close> are the values of the
  strategy's entry and exit conditions at that bar.  The branches read \<open>closes[idx]\<close>
  and write \<open>signals[idx]\<close>.
\<close>

definition trade_step ::
  "real list \<Rightarrow> real \<Rightarrow> nat \<Rightarrow> bool \<Rightarrow> bool \<Rightarrow> scan_state \<Rightarrow> error + scan_state" where
  "trade_step closes profit_threshold idx enter leave st =
     (if \<not> holding st \<and> enter then
        (if idx < length closes \<and> idx < length (signals st) then
           Inr (st\<lparr>entry := closes ! idx, holding := True,
                   signals := (signals st)[idx := 1]\<rparr>)
         else Inl OutOfRange)
      else if holding st \<and> leave then
        (if idx < length closes \<and> idx < length (signals st) then
           (let ret = xdiv (closes ! idx - entry st) (entry st) in
            Inr (st\<lparr>total_ret := xadd (total_ret st) ret,
                    profitables :=
                      (if xgt ret profit_threshold then profitables st + 1
                       else profitables st),
                    trades := trades st + 1,
                    holding := False,
                    signals := (signals st)[idx := - 1]\<rparr>))
         else Inl OutOfRange)
      else Inr st)"

text \<open>The \<open>return {...}\<close> statement that the three evaluators share.\<close>

definition summary :: "scan_state \<Rightarrow> TradeResult" where
  "summary st =
     \<lparr>success_rate =
        (if trades st \<noteq> 0
         then real_of_int (profitables st) / real_of_int (trades st) * 100 else 0),
      avg_return =
        (if trades st \<noteq> 0
         then xmul_by (xdiv_by (total_ret st) (real_of_int (trades st))) 100 else Fin 0),
      total_trades = trades st,
      signal_positions = signals st\<rparr>"

subsection \<open>RSI strategy\<close>

fun rsi_scan :: "real list \<Rightarrow> real \<Rightarrow> nat list \<Rightarrow> scan_state \<Rightarrow> error + scan_state" where
  "rsi_scan closes profit_threshold [] st = Inr st"
| "rsi_scan closes profit_threshold (i # is) st =
     (case calculate_rsi closes (int i) 14 of
        Inl e \<Rightarrow> Inl e
      | Inr rsi \<Rightarrow>
          (case trade_step closes profit_threshold i (rsi < 30) (rsi > 70) st of
             Inl e \<Rightarrow> Inl e
           | Inr st' \<Rightarrow> rsi_scan closes profit_threshold is st'))"

definition run_rsi_strategy :: "Candle list \<Rightarrow> real \<Rightarrow> error + TradeResult" where
  "run_rsi_strategy candles profit_threshold =
     (let closes = map close candles in
      case rsi_scan closes profit_threshold [15 ..< length closes]
             (init_state (length closes)) of
        Inl e \<Rightarrow> Inl e
      | Inr st \<Rightarrow> Inr (summary st))"

subsection \<open>MACD strategy\<close>

text \<open>The first loop: both moving averages advance one bar and their difference is appended.\<close>

fun macd_loop ::
  "real list \<Rightarrow> nat list \<Rightarrow> real \<Rightarrow> real \<Rightarrow> real list \<Rightarrow> error + real list" where
  "macd_loop closes [] ema12 ema26 macd = Inr macd"
| "macd_loop closes (i # is) ema12 ema26 macd =
     (case ema closes (int i) 12 ema12 of
        Inl e \<Rightarrow> Inl e
      | Inr ema12' \<Rightarrow>
          (case ema closes (int i) 26 ema26 of
             Inl e \<Rightarrow> Inl e
           | Inr ema26' \<Rightarrow> macd_loop closes is ema12' ema26' (macd @ [ema12' - ema26'])))"

text \<open>The second loop; \<open>signal.back()\<close> needs a non-empty vector.\<close>

fun signal_loop :: "real list \<Rightarrow> nat list \<Rightarrow> real list \<Rightarrow> error + real list" where
  "signal_loop macd [] signal = Inr signal"
| "signal_loop macd (i # is) signal =
     (if signal = [] then Inl OutOfRange
      else case ema macd (int i) 9 (last signal) of
        Inl e \<Rightarrow> Inl e
      | Inr s \<Rightarrow> signal_loop macd is (signal @ [s]))"

text \<open>
  The scanning loop.  The four reads of the crossover conditions are made up front; the
  source makes them lazily, which differs only when a read is out of range.
\<close>

fun macd_scan ::
  "real list \<Rightarrow> real \<Rightarrow> real list \<Rightarrow> real list \<Rightarrow> nat list \<Rightarrow> scan_state
     \<Rightarrow> error + scan_state" where
  "macd_scan closes profit_threshold macd signal [] st = Inr st"
| "macd_scan closes profit_threshold macd signal (i # is) st =
     (case vec_at macd (i - 1) of
        Inl e \<Rightarrow> Inl e
      | Inr m0 \<Rightarrow>
     (case vec_at signal (i - 1) of
        Inl e \<Rightarrow> Inl e
      | Inr s0 \<Rightarrow>
     (case vec_at macd i of
        Inl e \<Rightarrow> Inl e
      | Inr m1 \<Rightarrow>
     (case vec_at signal i of
        Inl e \<Rightarrow> Inl e
      | Inr s1 \<Rightarrow>
     (case trade_step closes profit_threshold (i + 26)
             (m0 < s0 \<and> m1 > s1) (m0 > s0 \<and> m1 < s1) st of
        Inl e \<Rightarrow> Inl e
      | Inr st' \<Rightarrow> macd_scan closes profit_threshold macd signal is st')))))"

text \<open>The MACD line and its signal line, as the evaluator computes them.\<close>

definition macd_line :: "real list \<Rightarrow> error + real list" where
  "macd_line closes =
     (case vec_at closes 11 of
        Inl e \<Rightarrow> Inl e
      | Inr ema12 \<Rightarrow>
          (case vec_at closes 25 of
             Inl e \<Rightarrow> Inl e
           | Inr ema26 \<Rightarrow> macd_loop closes [26 ..< length closes] ema12 ema26 []))"

definition signal_line :: "real list \<Rightarrow> error + real list" where
  "signal_line macd =
     (case vec_at macd 0 of
        Inl e \<Rightarrow> Inl e
      | Inr m \<Rightarrow> signal_loop macd [1 ..< length macd] [m])"

definition run_macd_strategy :: "Candle list \<Rightarrow> real \<Rightarrow> error + TradeResult" where
  "run_macd_strategy candles profit_threshold =
     (let closes = map close candles in
      case macd_line closes of
        Inl e \<Rightarrow> Inl e
      | Inr macd \<Rightarrow>
     (case signal_line macd of
        Inl e \<Rightarrow> Inl e
      | Inr signal \<Rightarrow>
     (case macd_scan closes profit_threshold macd signal [1 ..< length signal]
             (init_state (length closes)) of
        Inl e \<Rightarrow> Inl e
      | Inr st \<Rightarrow> Inr (summary st))))"

subsection \<open>Bollinger bands strategy\<close>

text \<open>The loop \<open>for (j = i - period + 1; j <= i; ++j) stddev += pow(closes[j] - ma, 2)\<close>.\<close>

fun dev_sum :: "real list \<Rightarrow> real \<Rightarrow> int list \<Rightarrow> real \<Rightarrow> error + real" where
  "dev_sum closes ma [] stddev = Inr stddev"
| "dev_sum closes ma (j # js) stddev =
     (case vec_at_int closes j of
        Inl e \<Rightarrow> Inl e
      | Inr c \<Rightarrow> dev_sum closes ma js (stddev + (c - ma)\<^sup>2))"

text \<open>The bands at bar \<open>i\<close>, as the loop body computes them: \<open>(lower, ma, upper)\<close>.\<close>

definition bollinger_bands :: "real list \<Rightarrow> nat \<Rightarrow> int \<Rightarrow> error + real \<times> real \<times> real" where
  "bollinger_bands closes i period =
     (case sma closes (int i) period of
        Inl e \<Rightarrow> Inl e
      | Inr ma \<Rightarrow>
          (case dev_sum closes ma [int i - period + 1 .. int i] 0 of
             Inl e \<Rightarrow> Inl e
           | Inr s \<Rightarrow>
               (let stddev = sqrt (s / real_of_int period);
                    upper = ma + 2 * stddev;
                    lower = ma - 2 * stddev
                in Inr (lower, ma, upper))))"

text \<open>
  The scanning loop.  The conditions read \<open>closes[i]\<close>, which \<open>sma\<close> has read
  before them at the same bar.
\<close>

fun bollinger_scan ::
  "real list \<Rightarrow> real \<Rightarrow> int \<Rightarrow> nat list \<Rightarrow> scan_state \<Rightarrow> error + scan_state" where
  "bollinger_scan closes profit_threshold period [] st = Inr st"
| "bollinger_scan closes profit_threshold period (i # is) st =
     (case bollinger_bands closes i period of
        Inl e \<Rightarrow> Inl e
      | Inr (lower, ma, upper) \<Rightarrow>
          (case trade_step closes profit_threshold i
                  (closes ! i < lower) (closes ! i > upper) st of
             Inl e \<Rightarrow> Inl e
           | Inr st' \<Rightarrow> bollinger_scan closes profit_threshold period is st'))"

definition run_bollinger_strategy :: "Candle list \<Rightarrow> real \<Rightarrow> error + TradeResult" where
  "run_bollinger_strategy candles profit_threshold =
     (let closes = map close candles; period = 20 in
      case bollinger_scan closes profit_threshold period [nat period ..< length closes]
             (init_state (length closes)) of
        Inl e \<Rightarrow> Inl e
      | Inr st \<Rightarrow> Inr (summary st))"

text \<open>The three evaluators, indexed, to state what holds of every one of them.\<close>

datatype strategy = RSI | MACD | Bollinger

fun evaluate :: "strategy \<Rightarrow> Candle list \<Rightarrow> real \<Rightarrow> error + TradeResult" where
  "evaluate RSI = run_rsi_strategy"
| "evaluate MACD = run_macd_strategy"
| "evaluate Bollinger = run_bollinger_strategy"

text \<open>The candles of the source's \<open>main\<close>.\<close>

definition main_candles :: "Candle list" where
  "main_candles = map (\<lambda>c. \<lparr>close = c\<rparr>)
     [100, 101, 102, 98, 96, 94, 92, 93, 95, 97, 99, 101, 100, 102, 103, 105, 104, 106,
      107, 109, 110, 111, 113, 112, 114, 115, 117, 116]"

section \<open>Definitions for the statements\<close>

subsection \<open>The scanning loops as one loop over decisions\<close>

text \<open>
  A decision is a bar index with the values of the entry and the exit condition at that
  bar.  Each of the three scanning loops is shown below to be \<open>scan\<close> over the
  decisions of its bars.
\<close>

fun scan ::
  "real list \<Rightarrow> real \<Rightarrow> (nat \<times> bool \<times> bool) list \<Rightarrow> scan_state \<Rightarrow> error + scan_state" where
  "scan closes profit_threshold [] st = Inr st"
| "scan closes profit_threshold ((idx, enter, leave) # ds) st =
     (case trade_step closes profit_threshold idx enter leave st of
        Inl e \<Rightarrow> Inl e
      | Inr st' \<Rightarrow> scan closes profit_threshold ds st')"

definition result_of :: "error + scan_state \<Rightarrow> error + TradeResult" where
  "result_of x = (case x of Inl e \<Rightarrow> Inl e | Inr st \<Rightarrow> Inr (summary st))"

text \<open>
  The first bar a strategy scans, and the number of bars the evaluator reads
  unconditionally (the MACD evaluator reads \<open>closes[11]\<close>, \<open>closes[25]\<close> and
  \<open>macd[0]\<close> before any loop).
\<close>

fun warm_up :: "strategy \<Rightarrow> nat" where
  "warm_up RSI = 15"
| "warm_up MACD = 27"
| "warm_up Bollinger = 20"

fun min_bars :: "strategy \<Rightarrow> nat" where
  "min_bars RSI = 0"
| "min_bars MACD = 27"
| "min_bars Bollinger = 0"

text \<open>The summary of a run that never traded, for a series of \<open>n\<close> bars.\<close>

definition zero_summary :: "nat \<Rightarrow> TradeResult" where
  "zero_summary n =
     \<lparr>success_rate = 0, avg_return = Fin 0, total_trades = 0,
      signal_positions = replicate n 0\<rparr>"

subsection \<open>Reading a signal timeline\<close>

text \<open>
  The timeline is \<open>1\<close> for Buy, \<open>- 1\<close> for Sell and \<open>0\<close> for no action.
  \<open>no_overlap long sig\<close>: read from a position that is open iff \<open>long\<close>, every Buy
  is made while flat and every Sell while long, and no other value occurs.
  \<open>final_long long sig\<close>: the position is open after the timeline.
\<close>

fun no_overlap :: "bool \<Rightarrow> int list \<Rightarrow> bool" where
  "no_overlap long [] = True"
| "no_overlap long (s # ss) =
     (if s = 1 then \<not> long \<and> no_overlap True ss
      else if s = - 1 then long \<and> no_overlap False ss
      else s = 0 \<and> no_overlap long ss)"

fun final_long :: "bool \<Rightarrow> int list \<Rightarrow> bool" where
  "final_long long [] = long"
| "final_long long (s # ss) =
     final_long (if s = 1 then True else if s = - 1 then False else long) ss"

text \<open>
  The completed trades of a timeline, as pairs (bar of the Buy, bar of the Sell that
  closes it); \<open>i\<close> is the bar of the head of the list and \<open>pos\<close> the bar of the
  Buy of the open position.  A Buy that is never sold gives no pair.  The return of a
  trade is (exit price - entry price) / entry price.
\<close>

fun trade_pairs :: "nat \<Rightarrow> nat option \<Rightarrow> int list \<Rightarrow> (nat \<times> nat) list" where
  "trade_pairs i pos [] = []"
| "trade_pairs i pos (s # ss) =
     (if s = 1 then trade_pairs (Suc i) (Some i) ss
      else if s = - 1 then
        (case pos of
           None \<Rightarrow> trade_pairs (Suc i) None ss
         | Some b \<Rightarrow> (b, i) # trade_pairs (Suc i) None ss)
      else trade_pairs (Suc i) pos ss)"

definition trade_return :: "real list \<Rightarrow> nat \<times> nat \<Rightarrow> xreal" where
  "trade_return closes p = xdiv (closes ! snd p - closes ! fst p) (closes ! fst p)"

text \<open>
  The same reading with prices: the entry price of the open position and the returns of
  the trades closed so far; \<open>None\<close> when a Buy is made while long, a Sell while flat,
  or a value is none of \<open>1\<close>, \<open>- 1\<close>, \<open>0\<close>.
\<close>

fun replay ::
  "real list \<Rightarrow> nat \<Rightarrow> int list \<Rightarrow> real option \<times> xreal list
     \<Rightarrow> (real option \<times> xreal list) option" where
  "replay closes i [] a = Some a"
| "replay closes i (s # ss) (pos, rets) =
     (if s = 1 then
        (case pos of
           None \<Rightarrow> replay closes (Suc i) ss (Some (closes ! i), rets)
         | Some e \<Rightarrow> None)
      else if s = - 1 then
        (case pos of
           None \<Rightarrow> None
         | Some e \<Rightarrow> replay closes (Suc i) ss (None, rets @ [xdiv (closes ! i - e) e]))
      else if s = 0 then replay closes (Suc i) ss (pos, rets)
      else None)"

text \<open>
  The loop invariant before bar \<open>k\<close>: the bars from \<open>k\<close> on are unmarked, and the
  marks below \<open>k\<close> replay to the loop's position, with the counters and the sum of the
  loop being those of the returns of the closed trades.
\<close>

definition position :: "scan_state \<Rightarrow> real option" where
  "position st = (if holding st then Some (entry st) else None)"

definition consistent :: "real list \<Rightarrow> real \<Rightarrow> nat \<Rightarrow> scan_state \<Rightarrow> bool" where
  "consistent closes profit_threshold k st \<longleftrightarrow>
     length (signals st) = length closes \<and> k \<le> length closes \<and>
     (\<forall>j. k \<le> j \<and> j < length closes \<longrightarrow> signals st ! j = 0) \<and>
     (\<exists>rets. replay closes 0 (take k (signals st)) (None, []) = Some (position st, rets) \<and>
        trades st = int (length rets) \<and>
        profitables st = int (length (filter (\<lambda>r. xgt r profit_threshold) rets)) \<and>
        total_ret st = foldl xadd (Fin 0) rets)"

subsection \<open>The entry and exit conditions of a bar\<close>

text \<open>
  The values of the entry and the exit condition that a strategy's loop tests at a bar:
  RSI below 30 and above 70; the bullish and the bearish crossover of the MACD line and
  its signal line (bar \<open>idx\<close> is index \<open>idx - 26\<close> of the two lines); the close
  below the lower and above the upper Bollinger band.
\<close>

definition rsi_conditions :: "real list \<Rightarrow> nat \<Rightarrow> error + bool \<times> bool" where
  "rsi_conditions closes i =
     (case calculate_rsi closes (int i) 14 of
        Inl e \<Rightarrow> Inl e
      | Inr rsi \<Rightarrow> Inr (rsi < 30, rsi > 70))"

definition crossover :: "real list \<Rightarrow> real list \<Rightarrow> nat \<Rightarrow> error + bool \<times> bool" where
  "crossover macd signal i =
     (case vec_at macd (i - 1) of
        Inl e \<Rightarrow> Inl e
      | Inr m0 \<Rightarrow>
     (case vec_at signal (i - 1) of
        Inl e \<Rightarrow> Inl e
      | Inr s0 \<Rightarrow>
     (case vec_at macd i of
        Inl e \<Rightarrow> Inl e
      | Inr m1 \<Rightarrow>
     (case vec_at signal i of
        Inl e \<Rightarrow> Inl e
      | Inr s1 \<Rightarrow> Inr (m0 < s0 \<and> m1 > s1, m0 > s0 \<and> m1 < s1)))))"

definition macd_conditions :: "real list \<Rightarrow> nat \<Rightarrow> error + bool \<times> bool" where
  "macd_conditions closes idx =
     (case macd_line closes of
        Inl e \<Rightarrow> Inl e
      | Inr macd \<Rightarrow>
          (case signal_line macd of
             Inl e \<Rightarrow> Inl e
           | Inr signal \<Rightarrow> crossover macd signal (idx - 26)))"

definition bollinger_conditions :: "real list \<Rightarrow> nat \<Rightarrow> error + bool \<times> bool" where
  "bollinger_conditions closes i =
     (case bollinger_bands closes i 20 of
        Inl e \<Rightarrow> Inl e
      | Inr (lower, ma, upper) \<Rightarrow> Inr (closes ! i < lower, closes ! i > upper))"

fun conditions :: "strategy \<Rightarrow> real list \<Rightarrow> nat \<Rightarrow> error + bool \<times> bool" where
  "conditions RSI = rsi_conditions"
| "conditions MACD = macd_conditions"
| "conditions Bollinger = bollinger_conditions"

text \<open>
  The mark the \<open>if\<close> / \<open>else if\<close> statement leaves on a bar, from the position
  before the bar and the two conditions at the bar.
\<close>

definition mark :: "bool \<Rightarrow> bool \<Rightarrow> bool \<Rightarrow> int" where
  "mark long enter leave =
     (if \<not> long \<and> enter then 1 else if long \<and> leave then - 1 else 0)"

subsection \<open>Mean and population standard deviation of a trailing window\<close>

text \<open>The \<open>period\<close> closes that end at bar \<open>i\<close>.\<close>

definition trailing :: "real list \<Rightarrow> nat \<Rightarrow> nat \<Rightarrow> real list" where
  "trailing closes i period = take period (drop (Suc i - period) closes)"

definition mean :: "real list \<Rightarrow> real" where
  "mean xs = sum_list xs / real (length xs)"

definition population_stddev :: "real list \<Rightarrow> real" where
  "population_stddev xs = sqrt ((\<Sum>x\<leftarrow>xs. (x - mean xs)\<^sup>2) / real (length xs))"

subsection \<open>Example series\<close>

text \<open>
  Sixteen falling bars (RSI 0 at bar 15: Buy), three sharp rises (RSI above 70 at bar
  18: Sell), two sharp falls (RSI below 30 at bar 20: a Buy that stays open).
\<close>

definition rsi_example :: "Candle list" where
  "rsi_example = map (\<lambda>c. \<lparr>close = c\<rparr>)
     [100, 99, 98, 97, 96, 95, 94, 93, 92, 91, 90, 89, 88, 87, 86, 85, 95, 105, 115, 65, 15]"

text \<open>
  Twenty-seven flat bars, then a fall, a rise and a fall: a bullish crossover at bar 28
  and a bearish one at bar 29.
\<close>

definition macd_example :: "Candle list" where
  "macd_example = map (\<lambda>c. \<lparr>close = c\<rparr>)
     [100, 100, 100, 100, 100, 100, 100, 100, 100, 100, 100, 100, 100, 100, 100, 100, 100,
      100, 100, 100, 100, 100, 100, 100, 100, 100, 100, 90, 120, 80]"

text \<open>
  Twenty flat bars and a collapse: the close of bar 20 is below the lower band.
\<close>

definition bollinger_example :: "Candle list" where
  "bollinger_example = map (\<lambda>c. \<lparr>close = c\<rparr>)
     [100, 100, 100, 100, 100, 100, 100, 100, 100, 100, 100, 100, 100, 100, 100, 100, 100,
      100, 100, 100, 0]"

text \<open>
  The first series with one more bar, at which the RSI is below 30: the position opened at
  bar 20 is still open at the end, and the exit condition is false at the last bar.
\<close>

definition rsi_open_example :: "Candle list" where
  "rsi_open_example = map (\<lambda>c. \<lparr>close = c\<rparr>)
     [100, 99, 98, 97, 96, 95, 94, 93, 92, 91, 90, 89, 88, 87, 86, 85, 95, 105, 115, 65, 15,
      16]"

section \<open>Properties of the relative strength index\<close>

lemma rsi_sums_total:
  assumes "\<forall>i \<in> set is. 1 \<le> i \<and> i < int (length closes)"
    and "0 \<le> fst gl" and "0 \<le> snd gl"
  shows "\<exists>g l. rsi_sums closes is gl = Inr (g, l) \<and> 0 \<le> g \<and> 0 \<le> l"
  using assms
proof (induction "is" arbitrary: gl)
  case Nil
  then show ?case by (cases gl) simp
next
  case (Cons i "is")
  obtain g l where gl: "gl = (g, l)" by (cases gl)
  from Cons.prems(1) have i: "1 \<le> i" "i < int (length closes)" by simp_all
  have rest: "\<forall>j \<in> set is. 1 \<le> j \<and> j < int (length closes)"
    using Cons.prems(1) by simp
  let ?change = "closes ! nat i - closes ! nat (i - 1)"
  show ?case
  proof (cases "?change > 0")
    case True
    have "\<exists>g' l'. rsi_sums closes is (g + ?change, l) = Inr (g', l') \<and> 0 \<le> g' \<and> 0 \<le> l'"
      using Cons.prems(2,3) True gl by (intro Cons.IH[OF rest]) simp_all
    with True i gl show ?thesis by (simp add: vec_at_int_def)
  next
    case False
    have "\<exists>g' l'. rsi_sums closes is (g, l - ?change) = Inr (g', l') \<and> 0 \<le> g' \<and> 0 \<le> l'"
      using Cons.prems(2,3) False gl by (intro Cons.IH[OF rest]) simp_all
    with False i gl show ?thesis by (simp add: vec_at_int_def)
  qed
qed

lemma rsi_value_bounds:
  assumes "0 \<le> (g::real)" and "0 \<le> l"
  shows "0 \<le> 100 - 100 / (1 + (if l = 0 then 0 else g / l))"
    and "100 - 100 / (1 + (if l = 0 then 0 else g / l)) \<le> 100"
proof -
  let ?rs = "if l = 0 then 0 else g / l"
  have rs: "0 \<le> ?rs" using assms by simp
  then have "100 / (1 + ?rs) \<le> 100 / 1"
    by (intro divide_left_mono) simp_all
  then show "0 \<le> 100 - 100 / (1 + ?rs)" by simp
  have "0 \<le> 100 / (1 + ?rs)" using rs by simp
  then show "100 - 100 / (1 + ?rs) \<le> 100" by simp
qed

lemma calculate_rsi_in_range:
  assumes "current_index < int (length closes)"
  shows "\<exists>r. calculate_rsi closes current_index period = Inr r \<and> 0 \<le> r \<and> r \<le> 100"
proof (cases "current_index < period")
  case True
  then show ?thesis by (simp add: calculate_rsi_def)
next
  case False
  have "\<forall>i \<in> set [current_index - period + 1 .. current_index].
          1 \<le> i \<and> i < int (length closes)"
    using False assms by auto
  then obtain g l where
    gl: "rsi_sums closes [current_index - period + 1 .. current_index] (0, 0) = Inr (g, l)"
    and pos: "0 \<le> g" "0 \<le> l"
    using rsi_sums_total[of "[current_index - period + 1 .. current_index]" closes "(0, 0)"]
    by auto
  from False gl have
    "calculate_rsi closes current_index period =
       Inr (100 - 100 / (1 + (if l = 0 then 0 else g / l)))"
    by (simp add: calculate_rsi_def)
  with rsi_value_bounds[OF pos] show ?thesis by blast
qed

text \<open>
  C6: for an index of the series, \<open>calculate_rsi\<close> returns a value, and the value lies
  in [0, 100]; for an index below the period it returns exactly 50.
\<close>

theorem calculate_rsi_bounded:
  "(current_index < period \<longrightarrow> calculate_rsi closes current_index period = Inr 50) \<and>
   (current_index < int (length closes) \<longrightarrow>
      (\<exists>r. calculate_rsi closes current_index period = Inr r \<and> 0 \<le> r \<and> r \<le> 100))"
  using calculate_rsi_in_range[of current_index closes period]
  by (simp add: calculate_rsi_def)

theorem calculate_rsi_bounded_witness:
  "calculate_rsi (map close main_candles) 3 14 = Inr 50 \<and>
   (\<exists>r. calculate_rsi (map close main_candles) 15 14 = Inr r \<and> 0 \<le> r \<and> r \<le> 100)"
  using calculate_rsi_bounded[of 3 14 "map close main_candles"]
    calculate_rsi_bounded[of 15 14 "map close main_candles"]
  by (simp add: main_candles_def)

text \<open>
  C2 (as amended): when the summed loss over the window is exactly 0, the ratio is taken
  as 0 and the RSI is 0, whatever the gain.
\<close>

theorem calculate_rsi_zero_loss:
  assumes "period \<le> current_index"
    and "rsi_sums closes [current_index - period + 1 .. current_index] (0, 0) = Inr (gain, 0)"
  shows "calculate_rsi closes current_index period = Inr 0"
  using assms by (simp add: calculate_rsi_def)

theorem calculate_rsi_zero_loss_witness:
  "(14::int) \<le> 15 \<and>
   rsi_sums [1, 2, 3, 4, 5, 6, 7, 8, 9, 10, 11, 12, 13, 14, 15, 16] [15 - 14 + 1 .. 15] (0, 0)
     = Inr (14, 0) \<and>
   calculate_rsi [1, 2, 3, 4, 5, 6, 7, 8, 9, 10, 11, 12, 13, 14, 15, 16] 15 14 = Inr 0"
proof -
  have sums:
    "rsi_sums [1, 2, 3, 4, 5, 6, 7, 8, 9, 10, 11, 12, 13, 14, 15, 16] [15 - 14 + 1 .. 15] (0, 0)
       = Inr (14, 0)"
    by (simp add: vec_at_int_def)
  from calculate_rsi_zero_loss[OF _ sums] sums show ?thesis by simp
qed

text \<open>
  The claim as stated fails: on a flat series the window has loss 0 and gain 0, and the
  RSI is 0, not 100.
\<close>

theorem calculate_rsi_flat_counterexample:
  "rsi_sums (replicate 16 100) [15 - 14 + 1 .. 15] (0, 0) = Inr (0, 0) \<and>
   calculate_rsi (replicate 16 100) 15 14 = Inr 0 \<and>
   calculate_rsi (replicate 16 100) 15 14 \<noteq> Inr 100"
proof -
  have sums: "rsi_sums (replicate 16 100) [15 - 14 + 1 .. 15] (0, 0) = Inr (0, 0)"
    by (simp add: vec_at_int_def)
  then show ?thesis by (simp add: calculate_rsi_def)
qed

section \<open>Moving averages and Bollinger bands\<close>

lemma sma_sum_value:
  assumes "\<forall>i \<in> set is. 0 \<le> i \<and> i < int (length data)"
  shows "sma_sum data is acc = Inr (acc + (\<Sum>i\<leftarrow>is. data ! nat i))"
  using assms by (induction "is" arbitrary: acc) (simp_all add: vec_at_int_def)

lemma dev_sum_value:
  assumes "\<forall>j \<in> set js. 0 \<le> j \<and> j < int (length closes)"
  shows "dev_sum closes ma js acc = Inr (acc + (\<Sum>j\<leftarrow>js. (closes ! nat j - ma)\<^sup>2))"
  using assms by (induction js arbitrary: acc) (simp_all add: vec_at_int_def)

lemma window_trailing:
  assumes "p \<le> Suc i" "i < length closes"
  shows "map (\<lambda>j. closes ! nat j) [int i - int p + 1 .. int i] = trailing closes i p"
proof (rule nth_equalityI)
  show len: "length (map (\<lambda>j. closes ! nat j) [int i - int p + 1 .. int i])
          = length (trailing closes i p)"
    using assms by (simp add: trailing_def)
  fix k assume "k < length (map (\<lambda>j. closes ! nat j) [int i - int p + 1 .. int i])"
  then have k: "k < p" using assms by simp
  then have "[int i - int p + 1 .. int i] ! k = int i - int p + 1 + int k"
    by (intro nth_upto) simp
  moreover have "nat (int i - int p + 1 + int k) = Suc i - p + k"
    using assms(1) by simp
  ultimately show "map (\<lambda>j. closes ! nat j) [int i - int p + 1 .. int i] ! k
      = trailing closes i p ! k"
    using k assms by (simp add: trailing_def)
qed

lemma bollinger_bands_value:
  assumes "20 \<le> i" "i < length closes"
  shows "bollinger_bands closes i 20 =
     Inr (mean (trailing closes i 20) - 2 * population_stddev (trailing closes i 20),
          mean (trailing closes i 20),
          mean (trailing closes i 20) + 2 * population_stddev (trailing closes i 20))"
proof -
  let ?w = "trailing closes i 20"
  have rng: "\<forall>j \<in> set [int i - 19 .. int i]. 0 \<le> j \<and> j < int (length closes)"
    using assms by auto
  have w: "map (\<lambda>j. closes ! nat j) [int i - 19 .. int i] = ?w"
    using window_trailing[of 20 i closes] assms by simp
  have lw: "length ?w = 20" using assms by (simp add: trailing_def)
  have s1: "(\<Sum>j\<leftarrow>[int i - 19 .. int i]. closes ! nat j) = sum_list ?w"
    using arg_cong[OF w, of sum_list] by simp
  have s2: "(\<Sum>j\<leftarrow>[int i - 19 .. int i]. (closes ! nat j - m)\<^sup>2)
        = (\<Sum>x\<leftarrow>?w. (x - m)\<^sup>2)" for m
    using arg_cong[OF w, of "\<lambda>xs. \<Sum>x\<leftarrow>xs. (x - m)\<^sup>2"] by (simp add: comp_def)
  have ma: "sma closes (int i) 20 = Inr (mean ?w)"
    using assms sma_sum_value[OF rng, of 0] by (simp add: sma_def s1 mean_def lw)
  show ?thesis
    using dev_sum_value[OF rng, of "mean ?w" 0]
    by (simp add: bollinger_bands_def ma s2 population_stddev_def lw Let_def)
qed

lemma ema_in_range:
  assumes "i < length data" "period \<noteq> - 1"
  shows "ema data (int i) period prev =
           Inr (data ! i * (2 / (real_of_int period + 1))
                + prev * (1 - 2 / (real_of_int period + 1)))"
  using assms by (simp add: ema_def vec_at_int_def Let_def)

section \<open>The position state machine\<close>

subsection \<open>The loop invariant\<close>

lemma replay_append:
  "replay closes i (xs @ ys) a =
     (case replay closes i xs a of
        None \<Rightarrow> None
      | Some a' \<Rightarrow> replay closes (i + length xs) ys a')"
proof (induction xs arbitrary: i a)
  case Nil
  then show ?case by simp
next
  case (Cons x xs)
  obtain pos rets where a: "a = (pos, rets)" by (cases a)
  show ?case unfolding a by (simp add: Cons.IH split: option.splits)
qed

lemma replay_zeros:
  "\<forall>x \<in> set xs. x = 0 \<Longrightarrow> replay closes i xs a = Some a"
proof (induction xs arbitrary: i)
  case Nil
  then show ?case by simp
next
  case (Cons x xs)
  then show ?case by (cases a) simp
qed

lemma take_split_zeros:
  assumes "k \<le> k'" "k' \<le> length xs" "\<forall>j. k \<le> j \<and> j < length xs \<longrightarrow> xs ! j = (0::int)"
  shows "\<exists>zs. take k' xs = take k xs @ zs \<and> (\<forall>z \<in> set zs. z = 0)"
proof (intro exI conjI)
  show "take k' xs = take k xs @ drop k (take k' xs)"
    using assms(1) by (metis append_take_drop_id min.absorb1 take_take)
  show "\<forall>z \<in> set (drop k (take k' xs)). z = 0"
  proof
    fix z assume "z \<in> set (drop k (take k' xs))"
    then obtain j where j: "j < length (drop k (take k' xs))" "z = drop k (take k' xs) ! j"
      by (auto simp: in_set_conv_nth)
    then have "z = xs ! (k + j)" using assms(2) by simp
    moreover have "k + j < length xs" using j(1) assms(2) by simp
    ultimately show "z = 0" using assms(3) by simp
  qed
qed

lemma consistent_later:
  assumes "consistent closes t k st" "k \<le> k'" "k' \<le> length closes"
  shows "consistent closes t k' st"
proof -
  from assms(1) have len: "length (signals st) = length closes"
    and zeros: "\<forall>j. k \<le> j \<and> j < length closes \<longrightarrow> signals st ! j = 0"
    by (simp_all add: consistent_def)
  from assms(1) obtain rets where
    r: "replay closes 0 (take k (signals st)) (None, []) = Some (position st, rets)"
      "trades st = int (length rets)"
      "profitables st = int (length (filter (\<lambda>r. xgt r t) rets))"
      "total_ret st = foldl xadd (Fin 0) rets"
    by (auto simp: consistent_def)
  obtain zs where zs: "take k' (signals st) = take k (signals st) @ zs" "\<forall>z \<in> set zs. z = 0"
    using take_split_zeros[of k k' "signals st"] assms(2,3) len zeros by auto
  have "replay closes 0 (take k' (signals st)) (None, []) = Some (position st, rets)"
    by (simp add: zs(1) replay_append r(1) replay_zeros[OF zs(2)])
  with r(2-4) len zeros assms(2,3) show ?thesis
    by (auto simp: consistent_def)
qed

lemma consistent_step:
  assumes "consistent closes t idx st" "idx < length closes"
  shows "\<exists>st'. trade_step closes t idx enter leave st = Inr st' \<and> consistent closes t (Suc idx) st'"
proof -
  from assms(1) have len: "length (signals st) = length closes"
    and zeros: "\<forall>j. idx \<le> j \<and> j < length closes \<longrightarrow> signals st ! j = 0"
    by (simp_all add: consistent_def)
  from assms(1) obtain rets where
    r: "replay closes 0 (take idx (signals st)) (None, []) = Some (position st, rets)"
      "trades st = int (length rets)"
      "profitables st = int (length (filter (\<lambda>r. xgt r t) rets))"
      "total_ret st = foldl xadd (Fin 0) rets"
    by (auto simp: consistent_def)
  have tk: "take (Suc idx) ((signals st)[idx := v]) = take idx (signals st) @ [v]" for v
    using assms(2) len by (simp add: take_Suc_conv_app_nth)
  have tk0: "take (Suc idx) (signals st) = take idx (signals st) @ [0]"
    using assms(2) len zeros by (simp add: take_Suc_conv_app_nth)
  consider (buy) "\<not> holding st" "enter" | (sell) "holding st" "leave"
    | (none) "\<not> (\<not> holding st \<and> enter)" "\<not> (holding st \<and> leave)"
    by blast
  then show ?thesis
  proof cases
    case buy
    let ?st = "st\<lparr>entry := closes ! idx, holding := True, signals := (signals st)[idx := 1]\<rparr>"
    have step: "trade_step closes t idx enter leave st = Inr ?st"
      using buy assms(2) len by (simp add: trade_step_def)
    have "replay closes 0 (take (Suc idx) (signals ?st)) (None, []) = Some (position ?st, rets)"
      using buy r(1) assms(2) len by (simp add: tk replay_append position_def min_def)
    then have "consistent closes t (Suc idx) ?st"
      using r(2-4) len zeros assms(2) by (auto simp: consistent_def)
    with step show ?thesis by blast
  next
    case sell
    let ?ret = "xdiv (closes ! idx - entry st) (entry st)"
    let ?st = "st\<lparr>total_ret := xadd (total_ret st) ?ret,
                    profitables := (if xgt ?ret t then profitables st + 1 else profitables st),
                    trades := trades st + 1, holding := False,
                    signals := (signals st)[idx := - 1]\<rparr>"
    have step: "trade_step closes t idx enter leave st = Inr ?st"
      using sell assms(2) len by (simp add: trade_step_def Let_def)
    have "replay closes 0 (take (Suc idx) (signals ?st)) (None, []) =
            Some (position ?st, rets @ [?ret])"
      using sell r(1) assms(2) len by (simp add: tk replay_append position_def min_def)
    moreover have "trades ?st = int (length (rets @ [?ret]))" using r(2) by simp
    moreover have "profitables ?st = int (length (filter (\<lambda>r. xgt r t) (rets @ [?ret])))"
      using r(3) by simp
    moreover have "total_ret ?st = foldl xadd (Fin 0) (rets @ [?ret])" using r(4) by simp
    moreover have "length (signals ?st) = length closes" using len by simp
    moreover have "\<forall>j. Suc idx \<le> j \<and> j < length closes \<longrightarrow> signals ?st ! j = 0"
      using zeros by simp
    ultimately have "consistent closes t (Suc idx) ?st"
      using assms(2) unfolding consistent_def by (intro conjI exI[of _ "rets @ [?ret]"]) simp_all
    with step show ?thesis by blast
  next
    case none
    then have step: "trade_step closes t idx enter leave st = Inr st"
      by (auto simp: trade_step_def)
    have "replay closes 0 (take (Suc idx) (signals st)) (None, []) = Some (position st, rets)"
      using r(1) by (simp add: tk0 replay_append)
    then have "consistent closes t (Suc idx) st"
      using r(2-4) len zeros assms(2) by (auto simp: consistent_def)
    with step show ?thesis by blast
  qed
qed

lemma scan_consistent:
  assumes "sorted_wrt (<) (map fst ds)"
    and "\<forall>d \<in> set ds. k \<le> fst d \<and> fst d < length closes"
    and "consistent closes t k st"
  shows "\<exists>st'. scan closes t ds st = Inr st' \<and> consistent closes t (length closes) st'"
  using assms
proof (induction ds arbitrary: k st)
  case Nil
  then show ?case using consistent_later[of closes t k st "length closes"]
    by (simp add: consistent_def)
next
  case (Cons d ds)
  obtain idx enter leave where d: "d = (idx, enter, leave)" by (cases d)
  from Cons.prems(2) d have idx: "k \<le> idx" "idx < length closes" by simp_all
  have "consistent closes t idx st"
    using consistent_later[OF Cons.prems(3) idx(1)] idx(2) by simp
  then obtain st1 where st1: "trade_step closes t idx enter leave st = Inr st1"
    "consistent closes t (Suc idx) st1"
    using consistent_step[OF _ idx(2)] by blast
  have "sorted_wrt (<) (map fst ds)" using Cons.prems(1) by simp
  moreover have "\<forall>d' \<in> set ds. Suc idx \<le> fst d' \<and> fst d' < length closes"
    using Cons.prems(1,2) d by auto
  ultimately obtain st' where "scan closes t ds st1 = Inr st'"
    "consistent closes t (length closes) st'"
    using Cons.IH[OF _ _ st1(2)] by blast
  with st1(1) d show ?case by simp
qed

lemma consistent_init: "consistent closes t 0 (init_state (length closes))"
  by (simp add: consistent_def init_state_def position_def)

subsection \<open>What a replayed timeline satisfies\<close>

lemma replay_no_overlap_aux:
  "replay closes i sig (pos, rets) = Some a \<Longrightarrow> long = (pos \<noteq> None)
     \<Longrightarrow> no_overlap long sig"
proof (induction sig arbitrary: i pos rets long)
  case Nil
  then show ?case by simp
next
  case (Cons s ss)
  show ?case
  proof (cases pos)
    case None
    with Cons.prems show ?thesis
      by (auto split: if_splits intro: Cons.IH)
  next
    case (Some e)
    with Cons.prems show ?thesis
      by (auto split: if_splits intro: Cons.IH)
  qed
qed

lemma replay_no_overlap:
  "replay closes i sig (pos, rets) = Some a \<Longrightarrow> no_overlap (pos \<noteq> None) sig"
  by (rule replay_no_overlap_aux) simp_all

lemma replay_final_long_aux:
  "replay closes i sig (pos, rets) = Some (pos', rets') \<Longrightarrow> long = (pos \<noteq> None)
     \<Longrightarrow> final_long long sig = (pos' \<noteq> None)"
proof (induction sig arbitrary: i pos rets long)
  case Nil
  then show ?case by auto
next
  case (Cons s ss)
  show ?case
  proof (cases pos)
    case None
    with Cons.prems show ?thesis
      by (auto split: if_splits simp: Cons.IH)
  next
    case (Some e)
    with Cons.prems show ?thesis
      by (auto split: if_splits simp: Cons.IH)
  qed
qed

lemma replay_final_long:
  "replay closes i sig (pos, rets) = Some (pos', rets')
     \<Longrightarrow> final_long (pos \<noteq> None) sig = (pos' \<noteq> None)"
  by (rule replay_final_long_aux) simp_all

lemma replay_returns:
  assumes "replay closes i sig (map_option (\<lambda>b. closes ! b) bpos, rets) = Some (pos', rets')"
  shows "rets' = rets @ map (trade_return closes) (trade_pairs i bpos sig)"
  using assms
proof (induction sig arbitrary: i rets bpos)
  case Nil
  then show ?case by simp
next
  case (Cons s ss)
  consider (buy) "s = 1" "bpos = None" | (sell) b where "s = - 1" "bpos = Some b"
    | (none) "s = 0"
    using Cons.prems by (cases bpos) (auto split: if_splits)
  then show ?case
  proof cases
    case buy
    with Cons.prems have
      "replay closes (Suc i) ss (map_option (\<lambda>b. closes ! b) (Some i), rets) = Some (pos', rets')"
      by simp
    from Cons.IH[OF this] buy show ?thesis by simp
  next
    case sell
    let ?r = "xdiv (closes ! i - closes ! b) (closes ! b)"
    from sell Cons.prems have
      "replay closes (Suc i) ss (map_option (\<lambda>b. closes ! b) None, rets @ [?r])
         = Some (pos', rets')"
      by simp
    from Cons.IH[OF this] sell show ?thesis by (simp add: trade_return_def)
  next
    case none
    with Cons.prems have
      "replay closes (Suc i) ss (map_option (\<lambda>b. closes ! b) bpos, rets) = Some (pos', rets')"
      by simp
    from Cons.IH[OF this] none show ?thesis by simp
  qed
qed

lemma no_overlap_counts:
  "no_overlap long sig \<Longrightarrow>
     count_list sig 1 + (if long then 1 else 0)
       = count_list sig (- 1) + (if final_long long sig then 1 else 0)"
proof (induction sig arbitrary: long)
  case Nil
  then show ?case by simp
next
  case (Cons s ss)
  consider (buy) "s = 1" "\<not> long" "no_overlap True ss"
    | (sell) "s = - 1" "long" "no_overlap False ss"
    | (none) "s = 0" "no_overlap long ss"
    using Cons.prems by (auto split: if_splits)
  then show ?case
  proof cases
    case buy
    from Cons.IH[OF buy(3)] buy(1,2) show ?thesis by simp
  next
    case sell
    from Cons.IH[OF sell(3)] sell(1,2) show ?thesis by simp
  next
    case none
    from Cons.IH[OF none(2)] none(1) show ?thesis by simp
  qed
qed

lemma no_overlap_values: "no_overlap long sig \<Longrightarrow> set sig \<subseteq> {- 1, 0, 1}"
  by (induction sig arbitrary: long) (auto split: if_splits)

lemma no_overlap_last:
  "no_overlap long sig \<Longrightarrow> final_long long sig \<Longrightarrow> filter (\<lambda>x. x \<noteq> 0) sig \<noteq> []
     \<Longrightarrow> last (filter (\<lambda>x. x \<noteq> 0) sig) = 1"
proof (induction sig arbitrary: long)
  case Nil
  then show ?case by simp
next
  case (Cons s ss)
  show ?case
  proof (cases "filter (\<lambda>x. x \<noteq> 0) ss = []")
    case True
    then have "final_long b ss = b" for b
      by (induction ss arbitrary: b) (auto split: if_splits)
    with Cons.prems True show ?thesis by (auto split: if_splits)
  next
    case False
    with Cons show ?thesis by (auto split: if_splits)
  qed
qed

lemma final_long_some_buy:
  "final_long False sig \<Longrightarrow> filter (\<lambda>x. x \<noteq> 0) sig \<noteq> []"
proof
  assume a: "final_long False sig" "filter (\<lambda>x. x \<noteq> 0) sig = []"
  from a(2) have "final_long b sig = b" for b
    by (induction sig arbitrary: b) (auto split: if_splits)
  with a(1) show False by simp
qed

lemma final_long_last:
  "final_long long sig \<Longrightarrow> sig \<noteq> [] \<Longrightarrow> last sig \<noteq> - 1"
proof (induction sig arbitrary: long)
  case Nil
  then show ?case by simp
next
  case (Cons s ss)
  show ?case
  proof (cases "ss = []")
    case True
    with Cons.prems show ?thesis by (auto split: if_splits)
  next
    case False
    with Cons.prems Cons.IH show ?thesis by simp
  qed
qed

lemma trade_pairs_length:
  "no_overlap (pos \<noteq> None) sig \<Longrightarrow> length (trade_pairs i pos sig) = count_list sig (- 1)"
proof (induction sig arbitrary: i pos)
  case Nil
  then show ?case by simp
next
  case (Cons s ss)
  consider (buy) "s = 1" "pos = None" | (sell) b where "s = - 1" "pos = Some b"
    | (none) "s = 0"
    using Cons.prems by (cases pos) (auto split: if_splits)
  then show ?case
  proof cases
    case buy
    with Cons.prems have "no_overlap (Some i \<noteq> None) ss" by simp
    from Cons.IH[OF this] buy show ?thesis by simp
  next
    case sell
    with Cons.prems have "no_overlap ((None :: nat option) \<noteq> None) ss" by simp
    from Cons.IH[OF this] sell show ?thesis by simp
  next
    case none
    with Cons.prems have "no_overlap (pos \<noteq> None) ss" by simp
    from Cons.IH[OF this] none show ?thesis by simp
  qed
qed

lemma trade_pairs_bars:
  assumes "no_overlap long sig" "(b, e) \<in> set (trade_pairs i pos sig)"
    and "case pos of None \<Rightarrow> \<not> long | Some b0 \<Rightarrow> long \<and> b0 < i"
  shows "b < e \<and> i \<le> e \<and> e < i + length sig \<and> sig ! (e - i) = - 1 \<and>
         (pos = Some b \<or> (i \<le> b \<and> sig ! (b - i) = 1))"
  using assms
proof (induction sig arbitrary: long i pos)
  case Nil
  then show ?case by simp
next
  case (Cons s ss)
  consider (buy) "s = 1" | (sell) "s = - 1" | (none) "s = 0"
    using Cons.prems(1) by (auto split: if_splits)
  then show ?case
  proof cases
    case buy
    with Cons.prems have p: "no_overlap True ss" "(b, e) \<in> set (trade_pairs (Suc i) (Some i) ss)"
      by simp_all
    have "b < e \<and> Suc i \<le> e \<and> e < Suc i + length ss \<and> ss ! (e - Suc i) = - 1 \<and>
         (Some i = Some b \<or> (Suc i \<le> b \<and> ss ! (b - Suc i) = 1))"
      by (rule Cons.IH[OF p]) simp
    then show ?thesis using buy by (auto simp: nth_Cons')
  next
    case sell
    with Cons.prems obtain b0 where b0: "pos = Some b0" "b0 < i" "long"
      by (auto split: option.splits)
    from sell b0 Cons.prems(2) consider "b = b0" "e = i"
      | "(b, e) \<in> set (trade_pairs (Suc i) None ss)" by auto
    then show ?thesis
    proof cases
      case 1
      then show ?thesis using b0 sell by simp
    next
      case 2
      have p: "no_overlap False ss" using Cons.prems(1) sell by simp
      have "b < e \<and> Suc i \<le> e \<and> e < Suc i + length ss \<and> ss ! (e - Suc i) = - 1 \<and>
         (None = Some b \<or> (Suc i \<le> b \<and> ss ! (b - Suc i) = 1))"
        by (rule Cons.IH[OF p 2]) simp
      then show ?thesis by (auto simp: nth_Cons')
    qed
  next
    case none
    with Cons.prems have p: "no_overlap long ss" "(b, e) \<in> set (trade_pairs (Suc i) pos ss)"
      by simp_all
    have "b < e \<and> Suc i \<le> e \<and> e < Suc i + length ss \<and> ss ! (e - Suc i) = - 1 \<and>
         (pos = Some b \<or> (Suc i \<le> b \<and> ss ! (b - Suc i) = 1))"
      using Cons.prems(3) by (intro Cons.IH[OF p]) (auto split: option.splits)
    then show ?thesis by (auto simp: nth_Cons')
  qed
qed

section \<open>The three evaluators as scans\<close>

lemma rsi_scan_as_scan:
  assumes "\<forall>i \<in> set is. i < length closes"
  shows "\<exists>ds. map fst ds = is \<and> (\<forall>t st. rsi_scan closes t is st = scan closes t ds st)"
  using assms
proof (induction "is")
  case Nil
  show ?case by (rule exI[of _ "[]"]) simp
next
  case (Cons i "is")
  then obtain ds where ds: "map fst ds = is"
    "\<forall>t st. rsi_scan closes t is st = scan closes t ds st"
    by auto
  from Cons.prems obtain r where r: "calculate_rsi closes (int i) 14 = Inr r"
    using calculate_rsi_in_range[of "int i" closes 14] by auto
  show ?case
    by (rule exI[of _ "(i, r < 30, r > 70) # ds"]) (simp add: ds r split: sum.splits)
qed

lemma bollinger_scan_as_scan:
  assumes "\<forall>i \<in> set is. 20 \<le> i \<and> i < length closes"
  shows "\<exists>ds. map fst ds = is \<and>
           (\<forall>t st. bollinger_scan closes t 20 is st = scan closes t ds st)"
  using assms
proof (induction "is")
  case Nil
  show ?case by (rule exI[of _ "[]"]) simp
next
  case (Cons i "is")
  then obtain ds where ds: "map fst ds = is"
    "\<forall>t st. bollinger_scan closes t 20 is st = scan closes t ds st"
    by auto
  from Cons.prems obtain lower ma upper where
    b: "bollinger_bands closes i 20 = Inr (lower, ma, upper)"
    using bollinger_bands_value[of i closes] by auto
  show ?case
    by (rule exI[of _ "(i, closes ! i < lower, closes ! i > upper) # ds"]) (simp add: ds b split: sum.splits)
qed

lemma macd_loop_length:
  assumes "\<forall>i \<in> set is. i < length closes"
  shows "\<exists>m. macd_loop closes is e12 e26 acc = Inr m \<and> length m = length acc + length is"
  using assms
proof (induction "is" arbitrary: e12 e26 acc)
  case Nil
  then show ?case by simp
next
  case (Cons i "is")
  then have i: "i < length closes" and rest: "\<forall>j \<in> set is. j < length closes" by simp_all
  obtain x12 x26 where x: "ema closes (int i) 12 e12 = Inr x12" "ema closes (int i) 26 e26 = Inr x26"
    using ema_in_range[OF i] by simp
  from Cons.IH[OF rest, of x12 x26 "acc @ [x12 - x26]"] show ?case
    by (simp add: x)
qed

lemma signal_loop_length:
  assumes "\<forall>i \<in> set is. i < length macd" "signal \<noteq> []"
  shows "\<exists>s. signal_loop macd is signal = Inr s \<and> length s = length signal + length is"
  using assms
proof (induction "is" arbitrary: signal)
  case Nil
  then show ?case by simp
next
  case (Cons i "is")
  then have i: "i < length macd" and rest: "\<forall>j \<in> set is. j < length macd" by simp_all
  obtain x where x: "ema macd (int i) 9 (last signal) = Inr x"
    using ema_in_range[OF i] by simp
  from Cons.IH[OF rest, of "signal @ [x]"] Cons.prems(2) show ?case
    by (simp add: x)
qed

lemma macd_scan_as_scan:
  assumes "\<forall>i \<in> set is. i < length macd \<and> i < length signal"
  shows "\<exists>ds. map fst ds = map (\<lambda>i. i + 26) is \<and>
           (\<forall>t st. macd_scan closes t macd signal is st = scan closes t ds st)"
  using assms
proof (induction "is")
  case Nil
  show ?case by (rule exI[of _ "[]"]) simp
next
  case (Cons i "is")
  then obtain ds where ds: "map fst ds = map (\<lambda>i. i + 26) is"
    "\<forall>t st. macd_scan closes t macd signal is st = scan closes t ds st"
    by auto
  from Cons.prems have i: "i < length macd" "i < length signal" by simp_all
  let ?d = "(i + 26,
             macd ! (i - 1) < signal ! (i - 1) \<and> macd ! i > signal ! i,
             macd ! (i - 1) > signal ! (i - 1) \<and> macd ! i < signal ! i)"
  have reads: "vec_at macd (i - Suc 0) = Inr (macd ! (i - 1))"
    "vec_at signal (i - Suc 0) = Inr (signal ! (i - 1))"
    "vec_at macd i = Inr (macd ! i)" "vec_at signal i = Inr (signal ! i)"
    using i by (simp_all add: vec_at_def less_imp_diff_less)
  show ?case
    by (rule exI[of _ "?d # ds"]) (simp add: ds reads split: sum.splits)
qed

lemma macd_line_length:
  assumes "26 \<le> length closes"
  shows "\<exists>m. macd_line closes = Inr m \<and> length m = length closes - 26"
  using assms macd_loop_length[of "[26 ..< length closes]" closes "closes ! 11" "closes ! 25" "[]"]
  by (simp add: macd_line_def vec_at_def)

lemma signal_line_length:
  assumes "macd \<noteq> []"
  shows "\<exists>s. signal_line macd = Inr s \<and> length s = length macd"
proof -
  have "vec_at macd 0 = Inr (macd ! 0)" using assms by (simp add: vec_at_def)
  moreover have "\<exists>s. signal_loop macd [1 ..< length macd] [macd ! 0] = Inr s \<and>
      length s = length [macd ! 0] + length [1 ..< length macd]"
    by (rule signal_loop_length) simp_all
  moreover have "0 < length macd" using assms by simp
  ultimately show ?thesis by (auto simp: signal_line_def)
qed

lemma shift_upt: "map (\<lambda>i. i + k) [a ..< b] = [a + k ..< b + k]"
  by (induction b) (simp_all add: le_Suc_eq)

lemma run_rsi_as_scan:
  "\<exists>ds. map fst ds = [15 ..< length candles] \<and>
     (\<forall>t. run_rsi_strategy candles t =
        result_of (scan (map close candles) t ds (init_state (length candles))))"
proof -
  obtain ds where "map fst ds = [15 ..< length (map close candles)]"
    "\<forall>t st. rsi_scan (map close candles) t [15 ..< length (map close candles)] st
        = scan (map close candles) t ds st"
    using rsi_scan_as_scan[of "[15 ..< length (map close candles)]" "map close candles"]
    by auto
  then show ?thesis
    by (intro exI[of _ ds]) (simp add: run_rsi_strategy_def result_of_def)
qed

lemma run_bollinger_as_scan:
  "\<exists>ds. map fst ds = [20 ..< length candles] \<and>
     (\<forall>t. run_bollinger_strategy candles t =
        result_of (scan (map close candles) t ds (init_state (length candles))))"
proof -
  obtain ds where "map fst ds = [20 ..< length (map close candles)]"
    "\<forall>t st. bollinger_scan (map close candles) t 20 [20 ..< length (map close candles)] st
        = scan (map close candles) t ds st"
    using bollinger_scan_as_scan[of "[20 ..< length (map close candles)]" "map close candles"]
    by auto
  then show ?thesis
    by (intro exI[of _ ds]) (simp add: run_bollinger_strategy_def result_of_def)
qed

lemma run_macd_as_scan:
  assumes "27 \<le> length candles"
  shows "\<exists>ds. map fst ds = [27 ..< length candles] \<and>
     (\<forall>t. run_macd_strategy candles t =
        result_of (scan (map close candles) t ds (init_state (length candles))))"
proof -
  let ?closes = "map close candles"
  obtain m where m: "macd_line ?closes = Inr m" "length m = length candles - 26"
    using macd_line_length[of ?closes] assms by auto
  then have "m \<noteq> []" using assms by auto
  then obtain sg where sg: "signal_line m = Inr sg" "length sg = length m"
    using signal_line_length by blast
  obtain ds where ds: "map fst ds = map (\<lambda>i. i + 26) [Suc 0 ..< length sg]"
    "\<forall>t st. macd_scan ?closes t m sg [Suc 0 ..< length sg] st = scan ?closes t ds st"
    using macd_scan_as_scan[of "[Suc 0 ..< length sg]" m sg ?closes] sg(2) by auto
  have "map fst ds = [27 ..< length candles]"
    using ds(1) sg(2) m(2) assms by (simp add: shift_upt)
  then show ?thesis
    by (intro exI[of _ ds]) (simp add: run_macd_strategy_def result_of_def m(1) sg(1) ds(2))
qed

lemma run_macd_short:
  assumes "length candles < 27"
  shows "run_macd_strategy candles t = Inl OutOfRange"
proof -
  let ?closes = "map close candles"
  consider "length candles < 26" | "length candles = 26" using assms by linarith
  then show ?thesis
  proof cases
    case 1
    then have "macd_line ?closes = Inl OutOfRange"
      by (simp add: macd_line_def vec_at_def)
    then show ?thesis by (simp add: run_macd_strategy_def)
  next
    case 2
    then have "macd_line ?closes = Inr []"
      by (simp add: macd_line_def vec_at_def)
    then show ?thesis by (simp add: run_macd_strategy_def signal_line_def vec_at_def)
  qed
qed

lemma evaluate_as_scan:
  assumes "min_bars s \<le> length candles"
  shows "\<exists>ds. map fst ds = [warm_up s ..< length candles] \<and>
     (\<forall>t. evaluate s candles t =
        result_of (scan (map close candles) t ds (init_state (length candles))))"
  using assms run_rsi_as_scan run_macd_as_scan run_bollinger_as_scan
  by (cases s) simp_all

section \<open>What every evaluator's run satisfies\<close>

lemma rsi_scan_decisions:
  assumes "\<forall>i \<in> set is. i < length closes"
  shows "\<exists>ds. map fst ds = is \<and>
           (\<forall>d \<in> set ds. rsi_conditions closes (fst d) = Inr (snd d)) \<and>
           (\<forall>t st. rsi_scan closes t is st = scan closes t ds st)"
  using assms
proof (induction "is")
  case Nil
  show ?case by (rule exI[of _ "[]"]) simp
next
  case (Cons i "is")
  then obtain ds where ds: "map fst ds = is"
    "\<forall>d \<in> set ds. rsi_conditions closes (fst d) = Inr (snd d)"
    "\<forall>t st. rsi_scan closes t is st = scan closes t ds st"
    by auto
  from Cons.prems obtain r where r: "calculate_rsi closes (int i) 14 = Inr r"
    using calculate_rsi_in_range[of "int i" closes 14] by auto
  have c: "rsi_conditions closes i = Inr (r < 30, r > 70)"
    by (simp add: rsi_conditions_def r)
  show ?case
    by (rule exI[of _ "(i, r < 30, r > 70) # ds"]) (simp add: ds r c split: sum.splits)
qed

lemma bollinger_scan_decisions:
  assumes "\<forall>i \<in> set is. 20 \<le> i \<and> i < length closes"
  shows "\<exists>ds. map fst ds = is \<and>
           (\<forall>d \<in> set ds. bollinger_conditions closes (fst d) = Inr (snd d)) \<and>
           (\<forall>t st. bollinger_scan closes t 20 is st = scan closes t ds st)"
  using assms
proof (induction "is")
  case Nil
  show ?case by (rule exI[of _ "[]"]) simp
next
  case (Cons i "is")
  then obtain ds where ds: "map fst ds = is"
    "\<forall>d \<in> set ds. bollinger_conditions closes (fst d) = Inr (snd d)"
    "\<forall>t st. bollinger_scan closes t 20 is st = scan closes t ds st"
    by auto
  from Cons.prems obtain lower ma upper where
    b: "bollinger_bands closes i 20 = Inr (lower, ma, upper)"
    using bollinger_bands_value[of i closes] by auto
  have c: "bollinger_conditions closes i = Inr (closes ! i < lower, closes ! i > upper)"
    by (simp add: bollinger_conditions_def b)
  show ?case
    by (rule exI[of _ "(i, closes ! i < lower, closes ! i > upper) # ds"])
      (simp add: ds b c split: sum.splits)
qed

lemma macd_scan_decisions:
  assumes "\<forall>i \<in> set is. i < length macd \<and> i < length signal"
  shows "\<exists>ds. map fst ds = map (\<lambda>i. i + 26) is \<and>
           (\<forall>d \<in> set ds. crossover macd signal (fst d - 26) = Inr (snd d)) \<and>
           (\<forall>t st. macd_scan closes t macd signal is st = scan closes t ds st)"
  using assms
proof (induction "is")
  case Nil
  show ?case by (rule exI[of _ "[]"]) simp
next
  case (Cons i "is")
  then obtain ds where ds: "map fst ds = map (\<lambda>i. i + 26) is"
    "\<forall>d \<in> set ds. crossover macd signal (fst d - 26) = Inr (snd d)"
    "\<forall>t st. macd_scan closes t macd signal is st = scan closes t ds st"
    by auto
  from Cons.prems have i: "i < length macd" "i < length signal" by simp_all
  let ?d = "(i + 26,
             macd ! (i - 1) < signal ! (i - 1) \<and> macd ! i > signal ! i,
             macd ! (i - 1) > signal ! (i - 1) \<and> macd ! i < signal ! i)"
  have reads: "vec_at macd (i - Suc 0) = Inr (macd ! (i - 1))"
    "vec_at signal (i - Suc 0) = Inr (signal ! (i - 1))"
    "vec_at macd i = Inr (macd ! i)" "vec_at signal i = Inr (signal ! i)"
    using i by (simp_all add: vec_at_def less_imp_diff_less)
  have c: "crossover macd signal i = Inr (snd ?d)"
    by (simp add: crossover_def reads)
  show ?case
    by (rule exI[of _ "?d # ds"]) (simp add: ds reads c split: sum.splits)
qed

lemma evaluate_decisions:
  assumes "min_bars s \<le> length candles"
  shows "\<exists>ds. map fst ds = [warm_up s ..< length candles] \<and>
     (\<forall>d \<in> set ds. conditions s (map close candles) (fst d) = Inr (snd d)) \<and>
     (\<forall>t. evaluate s candles t =
        result_of (scan (map close candles) t ds (init_state (length candles))))"
proof (cases s)
  case RSI
  obtain ds where "map fst ds = [15 ..< length (map close candles)]"
    "\<forall>d \<in> set ds. rsi_conditions (map close candles) (fst d) = Inr (snd d)"
    "\<forall>t st. rsi_scan (map close candles) t [15 ..< length (map close candles)] st
        = scan (map close candles) t ds st"
    using rsi_scan_decisions[of "[15 ..< length (map close candles)]" "map close candles"]
    by auto
  then show ?thesis using RSI
    by (intro exI[of _ ds]) (simp add: run_rsi_strategy_def result_of_def)
next
  case Bollinger
  obtain ds where "map fst ds = [20 ..< length (map close candles)]"
    "\<forall>d \<in> set ds. bollinger_conditions (map close candles) (fst d) = Inr (snd d)"
    "\<forall>t st. bollinger_scan (map close candles) t 20 [20 ..< length (map close candles)] st
        = scan (map close candles) t ds st"
    using bollinger_scan_decisions[of "[20 ..< length (map close candles)]" "map close candles"]
    by auto
  then show ?thesis using Bollinger
    by (intro exI[of _ ds]) (simp add: run_bollinger_strategy_def result_of_def)
next
  case MACD
  let ?closes = "map close candles"
  have n: "27 \<le> length candles" using assms MACD by simp
  obtain m where m: "macd_line ?closes = Inr m" "length m = length candles - 26"
    using macd_line_length[of ?closes] n by auto
  then have "m \<noteq> []" using n by auto
  then obtain sg where sg: "signal_line m = Inr sg" "length sg = length m"
    using signal_line_length by blast
  obtain ds where ds: "map fst ds = map (\<lambda>i. i + 26) [Suc 0 ..< length sg]"
    "\<forall>d \<in> set ds. crossover m sg (fst d - 26) = Inr (snd d)"
    "\<forall>t st. macd_scan ?closes t m sg [Suc 0 ..< length sg] st = scan ?closes t ds st"
    using macd_scan_decisions[of "[Suc 0 ..< length sg]" m sg ?closes] sg(2) by auto
  have idx: "map fst ds = [27 ..< length candles]"
    using ds(1) sg(2) m(2) n by (simp add: shift_upt)
  have cond: "\<forall>d \<in> set ds. macd_conditions ?closes (fst d) = Inr (snd d)"
    using ds(2) by (simp add: macd_conditions_def m(1) sg(1))
  show ?thesis using MACD idx cond
    by (intro exI[of _ ds]) (simp add: run_macd_strategy_def result_of_def m(1) sg(1) ds(3))
qed

lemma trade_step_other_bars:
  assumes "trade_step closes t idx enter leave st = Inr st'" "j \<noteq> idx"
  shows "signals st' ! j = signals st ! j"
  using assms by (auto simp: trade_step_def Let_def split: if_splits)

lemma scan_keeps_below:
  assumes "scan closes t ds st = Inr st'" "\<forall>d \<in> set ds. lo \<le> fst d" "j < lo"
  shows "signals st' ! j = signals st ! j"
  using assms
proof (induction ds arbitrary: st)
  case Nil
  then show ?case by simp
next
  case (Cons d ds)
  obtain idx enter leave where d: "d = (idx, enter, leave)" by (cases d)
  from Cons.prems(1) d obtain st1 where
    st1: "trade_step closes t idx enter leave st = Inr st1" "scan closes t ds st1 = Inr st'"
    by (auto split: sum.splits)
  have "j \<noteq> idx" using Cons.prems(2,3) d by auto
  then have "signals st1 ! j = signals st ! j"
    using trade_step_other_bars[OF st1(1)] by simp
  moreover have "signals st' ! j = signals st1 ! j"
    using Cons.IH[OF st1(2)] Cons.prems(2,3) by simp
  ultimately show ?case by simp
qed

lemma xgt_antitone: "xgt r t2 \<Longrightarrow> t1 \<le> t2 \<Longrightarrow> xgt r t1"
  by (cases r) simp_all

lemma trade_step_threshold:
  assumes "t1 \<le> t2" "p \<le> profitables st"
    and "trade_step closes t1 idx enter leave st = Inr st'"
  shows "\<exists>p'. trade_step closes t2 idx enter leave (st\<lparr>profitables := p\<rparr>)
                 = Inr (st'\<lparr>profitables := p'\<rparr>) \<and> p' \<le> profitables st'"
proof -
  consider (buy) "\<not> holding st" "enter" | (sell) "holding st" "leave"
    | (none) "\<not> (\<not> holding st \<and> enter)" "\<not> (holding st \<and> leave)"
    by blast
  then show ?thesis
  proof cases
    case buy
    with assms(3) have "trade_step closes t2 idx enter leave (st\<lparr>profitables := p\<rparr>)
        = Inr (st'\<lparr>profitables := p\<rparr>)" "profitables st' = profitables st"
      by (auto simp: trade_step_def split: if_splits)
    with assms(2) show ?thesis by auto
  next
    case sell
    let ?ret = "xdiv (closes ! idx - entry st) (entry st)"
    let ?p' = "if xgt ?ret t2 then p + 1 else p"
    from sell assms(3) have "trade_step closes t2 idx enter leave (st\<lparr>profitables := p\<rparr>)
        = Inr (st'\<lparr>profitables := ?p'\<rparr>)"
      "profitables st' = (if xgt ?ret t1 then profitables st + 1 else profitables st)"
      by (auto simp: trade_step_def Let_def split: if_splits)
    moreover have "?p' \<le> (if xgt ?ret t1 then profitables st + 1 else profitables st)"
      using assms(1,2) xgt_antitone[of ?ret t2 t1] by auto
    ultimately show ?thesis by auto
  next
    case none
    with assms(3) have "trade_step closes t2 idx enter leave (st\<lparr>profitables := p\<rparr>)
        = Inr (st'\<lparr>profitables := p\<rparr>)" "profitables st' = profitables st"
      by (auto simp: trade_step_def split: if_splits)
    with assms(2) show ?thesis by auto
  qed
qed

lemma scan_threshold:
  assumes "t1 \<le> t2" "p \<le> profitables st" "scan closes t1 ds st = Inr st'"
  shows "\<exists>p'. scan closes t2 ds (st\<lparr>profitables := p\<rparr>) = Inr (st'\<lparr>profitables := p'\<rparr>)
               \<and> p' \<le> profitables st'"
  using assms
proof (induction ds arbitrary: st p)
  case Nil
  then show ?case by auto
next
  case (Cons d ds)
  obtain idx enter leave where d: "d = (idx, enter, leave)" by (cases d)
  from Cons.prems(3) d obtain st1 where
    st1: "trade_step closes t1 idx enter leave st = Inr st1" "scan closes t1 ds st1 = Inr st'"
    by (auto split: sum.splits)
  obtain p1 where p1: "trade_step closes t2 idx enter leave (st\<lparr>profitables := p\<rparr>)
        = Inr (st1\<lparr>profitables := p1\<rparr>)" "p1 \<le> profitables st1"
    using trade_step_threshold[OF Cons.prems(1,2) st1(1)] by blast
  from Cons.IH[OF Cons.prems(1) p1(2) st1(2)] p1(1) d show ?case by simp
qed

lemma evaluate_timeline:
  assumes "min_bars s \<le> length candles"
  shows "\<exists>st. evaluate s candles t = Inr (summary st) \<and>
          length (signals st) = length candles \<and>
          no_overlap False (signals st) \<and>
          final_long False (signals st) = holding st \<and>
          trades st = int (length (trade_pairs 0 None (signals st))) \<and>
          profitables st = int (length (filter (\<lambda>r. xgt r t)
             (map (trade_return (map close candles)) (trade_pairs 0 None (signals st))))) \<and>
          total_ret st = foldl xadd (Fin 0)
             (map (trade_return (map close candles)) (trade_pairs 0 None (signals st))) \<and>
          (\<forall>j. j < warm_up s \<and> j < length candles \<longrightarrow> signals st ! j = 0)"
proof -
  let ?closes = "map close candles"
  let ?n = "length candles"
  obtain ds where ds: "map fst ds = [warm_up s ..< ?n]"
    "\<forall>t. evaluate s candles t = result_of (scan ?closes t ds (init_state ?n))"
    using evaluate_as_scan[OF assms] by blast
  have sorted: "sorted_wrt (<) (map fst ds)" by (simp add: ds(1))
  have "fst d \<in> set [warm_up s ..< ?n]" if "d \<in> set ds" for d
    using that ds(1) by (metis image_eqI set_map)
  then have rng: "\<forall>d \<in> set ds. warm_up s \<le> fst d \<and> fst d < ?n" by simp
  then have rng0: "\<forall>d \<in> set ds. 0 \<le> fst d \<and> fst d < length ?closes" by simp
  have "consistent ?closes t 0 (init_state (length ?closes))" by (rule consistent_init)
  then obtain st where st: "scan ?closes t ds (init_state ?n) = Inr st"
    "consistent ?closes t (length ?closes) st"
    using scan_consistent[OF sorted rng0] by auto
  from st(2) have len: "length (signals st) = ?n" by (simp add: consistent_def)
  from st(2) len obtain rets where
    r: "replay ?closes 0 (signals st) (None, []) = Some (position st, rets)"
      "trades st = int (length rets)"
      "profitables st = int (length (filter (\<lambda>r. xgt r t) rets))"
      "total_ret st = foldl xadd (Fin 0) rets"
    by (auto simp: consistent_def)
  have "replay ?closes 0 (signals st) (map_option (\<lambda>b. ?closes ! b) None, [])
      = Some (position st, rets)"
    using r(1) by simp
  from replay_returns[OF this]
  have rets: "rets = map (trade_return ?closes) (trade_pairs 0 None (signals st))" by simp
  have no: "no_overlap False (signals st)" using replay_no_overlap[OF r(1)] by simp
  have fl: "final_long False (signals st) = holding st"
    using replay_final_long[OF r(1)] by (simp add: position_def)
  have below: "\<forall>j. j < warm_up s \<and> j < ?n \<longrightarrow> signals st ! j = 0"
  proof (intro allI impI)
    fix j assume j: "j < warm_up s \<and> j < ?n"
    have "signals st ! j = signals (init_state ?n) ! j"
      using scan_keeps_below[OF st(1), of "warm_up s" j] rng j by simp
    then show "signals st ! j = 0" using j by (simp add: init_state_def)
  qed
  have "evaluate s candles t = Inr (summary st)"
    using ds(2) st(1) by (simp add: result_of_def)
  with len no fl r(2-4) rets below show ?thesis by (intro exI[of _ st]) simp
qed

lemma trade_step_mark:
  assumes "trade_step closes t idx enter leave st = Inr st'"
    and "signals st ! idx = 0"
  shows "signals st' = (signals st)[idx := mark (holding st) enter leave]"
proof -
  consider (buy) "\<not> holding st" "enter" | (sell) "holding st" "leave"
    | (none) "\<not> (\<not> holding st \<and> enter)" "\<not> (holding st \<and> leave)"
    by blast
  then show ?thesis
  proof cases
    case buy
    with assms(1) show ?thesis by (auto simp: trade_step_def mark_def split: if_splits)
  next
    case sell
    with assms(1) show ?thesis
      by (auto simp: trade_step_def mark_def Let_def split: if_splits)
  next
    case none
    then have "mark (holding st) enter leave = 0" by (auto simp: mark_def)
    moreover from none assms(1) have "st' = st" by (auto simp: trade_step_def)
    moreover have "(signals st)[idx := signals st ! idx] = signals st"
      by (rule list_update_id)
    ultimately show ?thesis using assms(2) by simp
  qed
qed

lemma scan_marks:
  assumes "sorted_wrt (<) (map fst ds)"
    and "\<forall>d \<in> set ds. k \<le> fst d \<and> fst d < length closes"
    and "consistent closes t k st"
    and "scan closes t ds st = Inr st'"
  shows "\<forall>d \<in> set ds. signals st' ! fst d =
           mark (final_long False (take (fst d) (signals st'))) (fst (snd d)) (snd (snd d))"
  using assms
proof (induction ds arbitrary: k st)
  case Nil
  then show ?case by simp
next
  case (Cons d ds)
  obtain idx enter leave where d: "d = (idx, enter, leave)" by (cases d)
  from Cons.prems(2) d have idx: "k \<le> idx" "idx < length closes" by simp_all
  have c: "consistent closes t idx st"
    using consistent_later[OF Cons.prems(3) idx(1)] idx(2) by simp
  obtain st1 where st1: "trade_step closes t idx enter leave st = Inr st1"
    "consistent closes t (Suc idx) st1"
    using consistent_step[OF c idx(2)] by blast
  have rest: "scan closes t ds st1 = Inr st'" using Cons.prems(4) d st1(1) by simp
  have sorted: "sorted_wrt (<) (map fst ds)" using Cons.prems(1) by simp
  have later: "\<forall>d' \<in> set ds. Suc idx \<le> fst d' \<and> fst d' < length closes"
    using Cons.prems(1,2) d by auto
  have tail: "\<forall>d' \<in> set ds. signals st' ! fst d' =
      mark (final_long False (take (fst d') (signals st'))) (fst (snd d')) (snd (snd d'))"
    by (rule Cons.IH[OF sorted later st1(2) rest])
  from c have len: "length (signals st) = length closes"
    and zero: "signals st ! idx = 0"
    using idx(2) by (simp_all add: consistent_def)
  from c obtain rets where
    "replay closes 0 (take idx (signals st)) (None, []) = Some (position st, rets)"
    by (auto simp: consistent_def)
  from replay_final_long[OF this]
  have hold: "final_long False (take idx (signals st)) = holding st"
    by (simp add: position_def)
  have s1: "signals st1 = (signals st)[idx := mark (holding st) enter leave]"
    using trade_step_mark[OF st1(1) zero] by simp
  obtain st2 where "scan closes t ds st1 = Inr st2" "consistent closes t (length closes) st2"
    using scan_consistent[OF sorted later st1(2)] by blast
  with rest have len': "length (signals st') = length closes" by (simp add: consistent_def)
  have keep: "signals st' ! j = signals st1 ! j" if "j < Suc idx" for j
    using scan_keeps_below[OF rest, of "Suc idx" j] later that by simp
  have "signals st' ! idx = mark (holding st) enter leave"
    using keep[of idx] s1 len idx(2) by simp
  moreover have "take idx (signals st') = take idx (signals st)"
  proof (rule nth_take_lemma)
    show "idx \<le> length (signals st')" using len' idx(2) by simp
    show "idx \<le> length (signals st)" using len idx(2) by simp
    fix j show "j < idx \<longrightarrow> signals st' ! j = signals st ! j"
      using keep[of j] s1 by simp
  qed
  ultimately have "signals st' ! idx =
      mark (final_long False (take idx (signals st'))) enter leave"
    using hold by simp
  with tail d show ?case by simp
qed

lemma evaluate_marks:
  assumes "min_bars s \<le> length candles"
  shows "\<exists>r. evaluate s candles t = Inr r \<and>
     (\<forall>i. warm_up s \<le> i \<and> i < length candles \<longrightarrow>
        (\<exists>enter leave. conditions s (map close candles) i = Inr (enter, leave) \<and>
           signal_positions r ! i =
             mark (final_long False (take i (signal_positions r))) enter leave))"
proof -
  let ?closes = "map close candles"
  let ?n = "length candles"
  obtain ds where ds: "map fst ds = [warm_up s ..< ?n]"
    "\<forall>d \<in> set ds. conditions s ?closes (fst d) = Inr (snd d)"
    "\<forall>t. evaluate s candles t = result_of (scan ?closes t ds (init_state ?n))"
    using evaluate_decisions[OF assms] by blast
  have sorted: "sorted_wrt (<) (map fst ds)" by (simp add: ds(1))
  have "fst d \<in> set [warm_up s ..< ?n]" if "d \<in> set ds" for d
    using that ds(1) by (metis image_eqI set_map)
  then have rng0: "\<forall>d \<in> set ds. 0 \<le> fst d \<and> fst d < length ?closes" by simp
  have init: "consistent ?closes t 0 (init_state (length ?closes))" by (rule consistent_init)
  obtain st where st: "scan ?closes t ds (init_state (length ?closes)) = Inr st"
    using scan_consistent[OF sorted rng0 init] by blast
  have marks: "\<forall>d \<in> set ds. signals st ! fst d =
      mark (final_long False (take (fst d) (signals st))) (fst (snd d)) (snd (snd d))"
    by (rule scan_marks[OF sorted rng0 init st])
  have r: "evaluate s candles t = Inr (summary st)"
    using ds(3) st by (simp add: result_of_def)
  have "\<exists>enter leave. conditions s ?closes i = Inr (enter, leave) \<and>
           signals st ! i = mark (final_long False (take i (signals st))) enter leave"
    if i: "warm_up s \<le> i \<and> i < ?n" for i
  proof -
    from i have "i \<in> set (map fst ds)" by (simp add: ds(1))
    then obtain d where d: "d \<in> set ds" "fst d = i" by auto
    from ds(2) d have "conditions s ?closes i = Inr (fst (snd d), snd (snd d))" by auto
    moreover from marks d have "signals st ! i =
        mark (final_long False (take i (signals st))) (fst (snd d)) (snd (snd d))" by auto
    ultimately show ?thesis by blast
  qed
  with r show ?thesis by (intro exI[of _ "summary st"]) (simp add: summary_def)
qed

lemma macd_loop_prefix:
  "macd_loop closes is e12 e26 acc = Inr m \<Longrightarrow> take (length acc) m = acc"
proof (induction "is" arbitrary: e12 e26 acc)
  case Nil
  then show ?case by simp
next
  case (Cons i "is")
  from Cons.prems obtain x12 x26 where
    "macd_loop closes is x12 x26 (acc @ [x12 - x26]) = Inr m"
    by (auto split: sum.splits)
  from Cons.IH[OF this] have "take (length acc) (take (Suc (length acc)) m) = take (length acc) (acc @ [x12 - x26])"
    by simp
  then show ?case by (simp add: min_def)
qed

lemma signal_loop_prefix:
  "signal_loop macd is signal = Inr sg \<Longrightarrow> take (length signal) sg = signal"
proof (induction "is" arbitrary: signal)
  case Nil
  then show ?case by simp
next
  case (Cons i "is")
  from Cons.prems obtain x where "signal_loop macd is (signal @ [x]) = Inr sg"
    by (auto split: sum.splits if_splits)
  from Cons.IH[OF this] have "take (length signal) (take (Suc (length signal)) sg) = take (length signal) (signal @ [x])"
    by simp
  then show ?case by (simp add: min_def)
qed

lemma macd_seeds:
  assumes "27 \<le> length closes"
  shows "\<exists>m sg. macd_line closes = Inr m \<and> signal_line m = Inr sg \<and>
     length m = length closes - 26 \<and> length sg = length m \<and>
     hd m = (closes ! 26 * (2 / 13) + closes ! 11 * (1 - 2 / 13))
            - (closes ! 26 * (2 / 27) + closes ! 25 * (1 - 2 / 27)) \<and>
     hd sg = hd m"
proof -
  obtain m where m: "macd_line closes = Inr m" "length m = length closes - 26"
    using macd_line_length[of closes] assms by auto
  then have ne: "m \<noteq> []" using assms by auto
  then obtain sg where sg: "signal_line m = Inr sg" "length sg = length m"
    using signal_line_length by blast
  let ?x12 = "closes ! 26 * (2 / 13) + closes ! 11 * (1 - 2 / 13)"
  let ?x26 = "closes ! 26 * (2 / 27) + closes ! 25 * (1 - 2 / 27)"
  have upt: "[26 ..< length closes] = 26 # [27 ..< length closes]"
    using assms by (simp add: upt_conv_Cons)
  have e12: "ema closes (int 26) 12 (closes ! 11) = Inr ?x12"
    using ema_in_range[of 26 closes 12 "closes ! 11"] assms by simp
  have e26: "ema closes (int 26) 26 (closes ! 25) = Inr ?x26"
    using ema_in_range[of 26 closes 26 "closes ! 25"] assms by simp
  have "macd_loop closes [27 ..< length closes] ?x12 ?x26 ([] @ [?x12 - ?x26]) = Inr m"
    using m(1) assms e12 e26 unfolding macd_line_def upt
    by (simp add: vec_at_def)
  from macd_loop_prefix[OF this] have "take 1 m = [?x12 - ?x26]" by simp
  then have hm: "hd m = ?x12 - ?x26" using ne by (cases m) simp_all
  have "signal_loop m [1 ..< length m] [m ! 0] = Inr sg"
    using sg(1) ne by (simp add: signal_line_def vec_at_def)
  from signal_loop_prefix[OF this] have "take 1 sg = [m ! 0]" by simp
  then have "hd sg = m ! 0" by (cases sg) simp_all
  then have hs: "hd sg = hd m" using ne by (simp add: hd_conv_nth)
  from m sg hm hs show ?thesis by blast
qed

section \<open>Runs of the example series\<close>

lemma rsi_example_run:
  "run_rsi_strategy rsi_example (1 / 100) =
     Inr \<lparr>success_rate = 100, avg_return = Fin (600 / 17), total_trades = 1,
          signal_positions =
            [0, 0, 0, 0, 0, 0, 0, 0, 0, 0, 0, 0, 0, 0, 0, 1, 0, 0, - 1, 0, 1]\<rparr>"
  by (simp add: run_rsi_strategy_def rsi_example_def calculate_rsi_def vec_at_int_def
      trade_step_def init_state_def summary_def xdiv_def Let_def)

lemma rsi_example_run_half:
  "run_rsi_strategy rsi_example (1 / 2) =
     Inr \<lparr>success_rate = 0, avg_return = Fin (600 / 17), total_trades = 1,
          signal_positions =
            [0, 0, 0, 0, 0, 0, 0, 0, 0, 0, 0, 0, 0, 0, 0, 1, 0, 0, - 1, 0, 1]\<rparr>"
  by (simp add: run_rsi_strategy_def rsi_example_def calculate_rsi_def vec_at_int_def
      trade_step_def init_state_def summary_def xdiv_def Let_def)

lemma macd_example_run:
  "run_macd_strategy macd_example (1 / 100) =
     Inr \<lparr>success_rate = 0, avg_return = Fin (- (100 / 3)), total_trades = 1,
          signal_positions =
            [0, 0, 0, 0, 0, 0, 0, 0, 0, 0, 0, 0, 0, 0, 0, 0, 0, 0, 0, 0, 0, 0, 0, 0, 0, 0,
             0, 0, 1, - 1]\<rparr>"
  by (simp add: run_macd_strategy_def macd_example_def macd_line_def signal_line_def ema_def
      vec_at_def vec_at_int_def trade_step_def init_state_def summary_def xdiv_def Let_def)

lemma rsi_open_example_run:
  "run_rsi_strategy rsi_open_example (1 / 100) =
     Inr \<lparr>success_rate = 100, avg_return = Fin (600 / 17), total_trades = 1,
          signal_positions =
            [0, 0, 0, 0, 0, 0, 0, 0, 0, 0, 0, 0, 0, 0, 0, 1, 0, 0, - 1, 0, 1, 0]\<rparr>"
  by (simp add: run_rsi_strategy_def rsi_open_example_def calculate_rsi_def vec_at_int_def
      trade_step_def init_state_def summary_def xdiv_def Let_def)

lemma rsi_open_example_conditions:
  "rsi_conditions (map close rsi_open_example) 18 = Inr (False, True)"
  "rsi_conditions (map close rsi_open_example) 21 = Inr (True, False)"
  by (simp_all add: rsi_conditions_def rsi_open_example_def calculate_rsi_def vec_at_int_def)

lemma replicate_28:
  "replicate 28 (0::int) =
     [0, 0, 0, 0, 0, 0, 0, 0, 0, 0, 0, 0, 0, 0, 0, 0, 0, 0, 0, 0, 0, 0, 0, 0, 0, 0, 0, 0]"
  by (simp add: numeral_eq_Suc)

lemma main_candles_rsi_run:
  "run_rsi_strategy main_candles (1 / 100) = Inr (zero_summary 28)"
  unfolding zero_summary_def replicate_28
  by (simp add: run_rsi_strategy_def main_candles_def calculate_rsi_def vec_at_int_def
      trade_step_def init_state_def summary_def Let_def)

lemma bollinger_example_bands:
  "bollinger_bands (map close bollinger_example) 20 20 =
     Inr (95 - 2 * sqrt 475, 95, 95 + 2 * sqrt 475)"
proof -
  let ?closes = "map close bollinger_example"
  have w: "trailing ?closes 20 20 =
      [100, 100, 100, 100, 100, 100, 100, 100, 100, 100, 100, 100, 100, 100, 100, 100, 100,
       100, 100, 0]"
    by (simp add: trailing_def bollinger_example_def)
  have m: "mean (trailing ?closes 20 20) = 95" unfolding w by (simp add: mean_def)
  have sd: "population_stddev (trailing ?closes 20 20) = sqrt 475"
    unfolding population_stddev_def m unfolding w by simp
  have "20 < length ?closes" by (simp add: bollinger_example_def)
  from bollinger_bands_value[OF _ this] show ?thesis by (simp add: m sd)
qed

lemma sqrt_475: "2 * sqrt 475 < 95"
proof -
  have "sqrt 475 < sqrt ((95 / 2)\<^sup>2)"
    by (subst real_sqrt_less_iff) (simp add: power2_eq_square)
  then show ?thesis by simp
qed

lemma bollinger_example_run:
  "run_bollinger_strategy bollinger_example (1 / 100) =
     Inr \<lparr>success_rate = 0, avg_return = Fin 0, total_trades = 0,
          signal_positions =
            [0, 0, 0, 0, 0, 0, 0, 0, 0, 0, 0, 0, 0, 0, 0, 0, 0, 0, 0, 0, 1]\<rparr>"
proof -
  have len: "length bollinger_example = 21" by (simp add: bollinger_example_def)
  have c: "map close bollinger_example ! 20 = 0" by (simp add: bollinger_example_def)
  have r: "replicate 21 (0::int) =
      [0, 0, 0, 0, 0, 0, 0, 0, 0, 0, 0, 0, 0, 0, 0, 0, 0, 0, 0, 0, 0]"
    by (simp add: numeral_eq_Suc)
  show ?thesis
    using sqrt_475
    by (simp add: run_bollinger_strategy_def len bollinger_example_bands c trade_step_def
        init_state_def summary_def r)
qed

section \<open>The claims\<close>

lemma foldl_xadd_Fin:
  "foldl xadd (Fin a) (map (\<lambda>p. Fin (f p)) ps) = Fin (a + sum_list (map f ps))"
  by (induction ps arbitrary: a) (simp_all add: add.assoc)

lemma summary_of_timeline:
  assumes "trades st = int (length ps)"
    and "profitables st = int (length (filter (\<lambda>r. xgt r t) (map f ps)))"
    and "total_ret st = foldl xadd (Fin 0) (map f ps)"
  shows "total_trades (summary st) = int (length ps)"
    and "success_rate (summary st) =
      (if ps = [] then 0
       else 100 * real (length (filter (\<lambda>r. xgt r t) (map f ps))) / real (length ps))"
    and "avg_return (summary st) =
      (if ps = [] then Fin 0
       else xmul_by (xdiv_by (foldl xadd (Fin 0) (map f ps)) (real (length ps))) 100)"
  using assms by (simp_all add: summary_def)

text \<open>
  C3: the timeline of every evaluator never opens a position while one is open and never
  closes one while flat; the entry condition is ignored while long and the exit condition
  while flat.
\<close>

theorem no_overlapping_positions:
  assumes "min_bars s \<le> length candles"
  shows "(\<exists>r. evaluate s candles t = Inr r \<and> no_overlap False (signal_positions r)) \<and>
    (holding st \<longrightarrow>
       trade_step closes t idx enter leave st = trade_step closes t idx False leave st) \<and>
    (\<not> holding st \<longrightarrow>
       trade_step closes t idx enter leave st = trade_step closes t idx enter False st)"
proof (intro conjI impI)
  obtain st' where "evaluate s candles t = Inr (summary st')" "no_overlap False (signals st')"
    using evaluate_timeline[OF assms, of t] by blast
  then show "\<exists>r. evaluate s candles t = Inr r \<and> no_overlap False (signal_positions r)"
    by (intro exI[of _ "summary st'"]) (simp add: summary_def)
  show "trade_step closes t idx enter leave st = trade_step closes t idx False leave st"
    if "holding st" using that by (simp add: trade_step_def)
  show "trade_step closes t idx enter leave st = trade_step closes t idx enter False st"
    if "\<not> holding st" using that by (simp add: trade_step_def)
qed

theorem no_overlapping_positions_witness:
  "min_bars MACD \<le> length macd_example \<and>
   (\<exists>r. evaluate MACD macd_example (1 / 100) = Inr r \<and>
        no_overlap False (signal_positions r) \<and>
        signal_positions r = replicate 28 0 @ [1, - 1]) \<and>
   holding ((init_state 2)\<lparr>holding := True\<rparr>) \<and>
   trade_step [1, 2] (1 / 100) 1 True False ((init_state 2)\<lparr>holding := True\<rparr>)
     = trade_step [1, 2] (1 / 100) 1 False False ((init_state 2)\<lparr>holding := True\<rparr>) \<and>
   \<not> holding (init_state 2) \<and>
   trade_step [1, 2] (1 / 100) 1 False True (init_state 2)
     = trade_step [1, 2] (1 / 100) 1 False False (init_state 2)"
proof -
  have h: "min_bars MACD \<le> length macd_example" by (simp add: macd_example_def)
  have long: "holding ((init_state 2)\<lparr>holding := True\<rparr>)" by simp
  have flat: "\<not> holding (init_state 2)" by (simp add: init_state_def)
  from no_overlapping_positions[OF h, where t = "1 / 100"
      and st = "(init_state 2)\<lparr>holding := True\<rparr>" and closes = "[1, 2]" and idx = 1
      and enter = True and leave = False]
    no_overlapping_positions[OF h, where t = "1 / 100"
      and st = "init_state 2" and closes = "[1, 2]" and idx = 1
      and enter = False and leave = True]
    macd_example_run h long flat
  show ?thesis by (simp add: replicate_28)
qed

text \<open>
  C10: every entry of the timeline is one of -1, 0, 1, there is one entry per bar, and
  every completed trade is a Buy bar followed by a strictly later Sell bar; a step that
  enters at a bar does not look at the exit condition of that bar.
\<close>

theorem one_action_per_bar:
  assumes "min_bars s \<le> length candles"
  shows "(\<exists>r. evaluate s candles t = Inr r \<and>
      length (signal_positions r) = length candles \<and>
      set (signal_positions r) \<subseteq> {- 1, 0, 1} \<and>
      total_trades r = int (length (trade_pairs 0 None (signal_positions r))) \<and>
      (\<forall>p \<in> set (trade_pairs 0 None (signal_positions r)).
         fst p < snd p \<and> signal_positions r ! fst p = 1 \<and> signal_positions r ! snd p = - 1)) \<and>
    (\<not> holding st \<and> enter \<and> idx < length closes \<and> idx < length (signals st) \<longrightarrow>
       trade_step closes t idx enter leave st =
         Inr (st\<lparr>entry := closes ! idx, holding := True, signals := (signals st)[idx := 1]\<rparr>))"
proof (intro conjI impI)
  obtain st' where st': "evaluate s candles t = Inr (summary st')"
    "length (signals st') = length candles" "no_overlap False (signals st')"
    "trades st' = int (length (trade_pairs 0 None (signals st')))"
    using evaluate_timeline[OF assms, of t] by blast
  have "fst p < snd p \<and> signals st' ! fst p = 1 \<and> signals st' ! snd p = - 1"
    if "p \<in> set (trade_pairs 0 None (signals st'))" for p
  proof -
    from that have "(fst p, snd p) \<in> set (trade_pairs 0 None (signals st'))" by simp
    from trade_pairs_bars[OF st'(3) this] show ?thesis by simp
  qed
  with st' no_overlap_values[OF st'(3)]
  show "\<exists>r. evaluate s candles t = Inr r \<and>
      length (signal_positions r) = length candles \<and>
      set (signal_positions r) \<subseteq> {- 1, 0, 1} \<and>
      total_trades r = int (length (trade_pairs 0 None (signal_positions r))) \<and>
      (\<forall>p \<in> set (trade_pairs 0 None (signal_positions r)).
         fst p < snd p \<and> signal_positions r ! fst p = 1 \<and> signal_positions r ! snd p = - 1)"
    by (intro exI[of _ "summary st'"]) (simp add: summary_def)
  show "trade_step closes t idx enter leave st =
         Inr (st\<lparr>entry := closes ! idx, holding := True, signals := (signals st)[idx := 1]\<rparr>)"
    if "\<not> holding st \<and> enter \<and> idx < length closes \<and> idx < length (signals st)"
    using that by (simp add: trade_step_def)
qed

theorem one_action_per_bar_witness:
  "min_bars MACD \<le> length macd_example \<and>
   (\<exists>r. evaluate MACD macd_example (1 / 100) = Inr r \<and>
        length (signal_positions r) = length macd_example \<and>
        set (signal_positions r) \<subseteq> {- 1, 0, 1} \<and>
        total_trades r = 1 \<and>
        trade_pairs 0 None (signal_positions r) = [(28, 29)]) \<and>
   trade_step [1, 2] (1 / 100) 1 True True
       \<lparr>trades = 0, profitables = 0, total_ret = Fin 0, holding = False, entry = 0,
        signals = [0, 0]\<rparr>
     = Inr \<lparr>trades = 0, profitables = 0, total_ret = Fin 0, holding = True, entry = 2,
            signals = [0, 1]\<rparr>"
proof -
  let ?st = "\<lparr>trades = 0, profitables = 0, total_ret = Fin 0, holding = False, entry = 0,
        signals = [0, 0]\<rparr>"
  have h: "min_bars MACD \<le> length macd_example" by (simp add: macd_example_def)
  have len: "length macd_example = 30" by (simp add: macd_example_def)
  have pairs: "trade_pairs 0 None (replicate 28 0 @ [1, - 1]) = [(28, 29)]"
    by (simp add: replicate_28)
  from one_action_per_bar[OF h, where t = "1 / 100" and st = ?st
      and closes = "[1, 2]" and idx = 1 and enter = True and leave = True]
    macd_example_run pairs
  show ?thesis by (simp add: replicate_28 len)
qed

text \<open>
  C7: every evaluator returns a summary; with no completed trade its success rate and
  average return are 0, and otherwise the success rate is 100 times the number of
  completed trades whose return is greater than the threshold over the number of trades,
  and the average return is 100 times the sum of the returns over the number of trades
  (a real number when no close is zero).
\<close>

theorem summary_statistics:
  assumes "min_bars s \<le> length candles"
  shows "\<exists>r. evaluate s candles t = Inr r \<and>
    (let closed = trade_pairs 0 None (signal_positions r);
         rets = map (trade_return (map close candles)) closed;
         n = length closed
     in total_trades r = int n \<and>
        success_rate r =
          (if n = 0 then 0
           else 100 * real (length (filter (\<lambda>x. xgt x t) rets)) / real n) \<and>
        avg_return r =
          (if n = 0 then Fin 0
           else xmul_by (xdiv_by (foldl xadd (Fin 0) rets) (real n)) 100) \<and>
        (n \<noteq> 0 \<and> (\<forall>c \<in> set candles. close c \<noteq> 0) \<longrightarrow>
           avg_return r =
             Fin (100 * ((\<Sum>p\<leftarrow>closed. (close (candles ! snd p) - close (candles ! fst p))
                                    / close (candles ! fst p)) / real n))))"
proof -
  let ?closes = "map close candles"
  obtain st where st: "evaluate s candles t = Inr (summary st)"
    "length (signals st) = length candles" "no_overlap False (signals st)"
    "trades st = int (length (trade_pairs 0 None (signals st)))"
    "profitables st = int (length (filter (\<lambda>r. xgt r t)
       (map (trade_return ?closes) (trade_pairs 0 None (signals st)))))"
    "total_ret st = foldl xadd (Fin 0)
       (map (trade_return ?closes) (trade_pairs 0 None (signals st)))"
    using evaluate_timeline[OF assms, of t] by blast
  let ?closed = "trade_pairs 0 None (signals st)"
  let ?ret = "\<lambda>p. (close (candles ! snd p) - close (candles ! fst p)) / close (candles ! fst p)"
  have sig: "signal_positions (summary st) = signals st" by (simp add: summary_def)
  have bars: "fst p < length candles \<and> snd p < length candles" if "p \<in> set ?closed" for p
  proof -
    from that have "(fst p, snd p) \<in> set ?closed" by simp
    from trade_pairs_bars[OF st(3) this] st(2) show ?thesis by simp
  qed
  have finite: "avg_return (summary st) = Fin (100 * (sum_list (map ?ret ?closed) / real (length ?closed)))"
    if ne: "?closed \<noteq> []" and nz: "\<forall>c \<in> set candles. close c \<noteq> 0"
  proof -
    have "trade_return ?closes p = Fin (?ret p)" if "p \<in> set ?closed" for p
      using bars[OF that] nz by (simp add: trade_return_def xdiv_def)
    then have "map (trade_return ?closes) ?closed = map (\<lambda>p. Fin (?ret p)) ?closed"
      by simp
    then have "total_ret st = Fin (0 + sum_list (map ?ret ?closed))"
      using st(6) by (simp only: foldl_xadd_Fin)
    then show ?thesis using ne st(4) by (simp add: summary_def xdiv_def)
  qed
  show ?thesis
    using st(1) summary_of_timeline[OF st(4-6)] finite
    by (intro exI[of _ "summary st"]) (simp add: sig Let_def)
qed

theorem summary_statistics_witness:
  "min_bars MACD \<le> length macd_example \<and>
   (\<exists>r. evaluate MACD macd_example (1 / 100) = Inr r \<and>
        trade_pairs 0 None (signal_positions r) = [(28, 29)] \<and>
        map (trade_return (map close macd_example)) (trade_pairs 0 None (signal_positions r))
          = [Fin (- (1 / 3))] \<and>
        total_trades r = 1 \<and> success_rate r = 0 \<and>
        avg_return r = Fin (100 * (((80 - 120) / 120) / 1))) \<and>
   min_bars RSI \<le> length main_candles \<and>
   (\<exists>r. evaluate RSI main_candles (1 / 100) = Inr r \<and>
        trade_pairs 0 None (signal_positions r) = [] \<and>
        total_trades r = 0 \<and> success_rate r = 0 \<and> avg_return r = Fin 0)"
proof -
  have h: "min_bars MACD \<le> length macd_example" by (simp add: macd_example_def)
  have h': "min_bars RSI \<le> length main_candles" by simp
  have nz: "\<forall>c \<in> set macd_example. close c \<noteq> 0" by (simp add: macd_example_def)
  have c: "close (macd_example ! 28) = 120" "close (macd_example ! 29) = 80"
    "map close macd_example ! 28 = 120" "map close macd_example ! 29 = 80"
    by (simp_all add: macd_example_def)
  from summary_statistics[OF h, of "1 / 100"] obtain r where
    r: "evaluate MACD macd_example (1 / 100) = Inr r"
    and stats: "let closed = trade_pairs 0 None (signal_positions r);
         rets = map (trade_return (map close macd_example)) closed;
         n = length closed
     in total_trades r = int n \<and>
        success_rate r =
          (if n = 0 then 0
           else 100 * real (length (filter (\<lambda>x. xgt x (1 / 100)) rets)) / real n) \<and>
        avg_return r =
          (if n = 0 then Fin 0
           else xmul_by (xdiv_by (foldl xadd (Fin 0) rets) (real n)) 100) \<and>
        (n \<noteq> 0 \<and> (\<forall>c \<in> set macd_example. close c \<noteq> 0) \<longrightarrow>
           avg_return r =
             Fin (100 * ((\<Sum>p\<leftarrow>closed. (close (macd_example ! snd p)
                                      - close (macd_example ! fst p))
                                    / close (macd_example ! fst p)) / real n)))"
    by blast
  have "signal_positions r = replicate 28 0 @ [1, - 1]"
    using r macd_example_run by (auto simp: replicate_28)
  then have p: "trade_pairs 0 None (signal_positions r) = [(28, 29)]"
    by (simp add: replicate_28)
  have macd: "map (trade_return (map close macd_example)) (trade_pairs 0 None (signal_positions r))
          = [Fin (- (1 / 3))] \<and>
        total_trades r = 1 \<and> success_rate r = 0 \<and>
        avg_return r = Fin (100 * (((80 - 120) / 120) / 1))"
    using stats nz unfolding Let_def p by (simp add: trade_return_def xdiv_def c)
  from summary_statistics[OF h', of "1 / 100"] obtain r' where
    r': "evaluate RSI main_candles (1 / 100) = Inr r'"
    and stats': "let closed = trade_pairs 0 None (signal_positions r');
         rets = map (trade_return (map close main_candles)) closed;
         n = length closed
     in total_trades r' = int n \<and>
        success_rate r' =
          (if n = 0 then 0
           else 100 * real (length (filter (\<lambda>x. xgt x (1 / 100)) rets)) / real n) \<and>
        avg_return r' =
          (if n = 0 then Fin 0
           else xmul_by (xdiv_by (foldl xadd (Fin 0) rets) (real n)) 100) \<and>
        (n \<noteq> 0 \<and> (\<forall>c \<in> set main_candles. close c \<noteq> 0) \<longrightarrow>
           avg_return r' =
             Fin (100 * ((\<Sum>p\<leftarrow>closed. (close (main_candles ! snd p)
                                      - close (main_candles ! fst p))
                                    / close (main_candles ! fst p)) / real n)))"
    by blast
  have "signal_positions r' = replicate 28 0"
    using r' main_candles_rsi_run by (auto simp: zero_summary_def)
  then have p': "trade_pairs 0 None (signal_positions r') = []"
    by (simp add: replicate_28)
  have rsi: "total_trades r' = 0 \<and> success_rate r' = 0 \<and> avg_return r' = Fin 0"
    using stats' unfolding Let_def p' by simp
  have A: "\<exists>r. evaluate MACD macd_example (1 / 100) = Inr r \<and>
        trade_pairs 0 None (signal_positions r) = [(28, 29)] \<and>
        map (trade_return (map close macd_example)) (trade_pairs 0 None (signal_positions r))
          = [Fin (- (1 / 3))] \<and>
        total_trades r = 1 \<and> success_rate r = 0 \<and>
        avg_return r = Fin (100 * (((80 - 120) / 120) / 1))"
    using r p macd by (intro exI[of _ r] conjI) simp_all
  have B: "\<exists>r. evaluate RSI main_candles (1 / 100) = Inr r \<and>
        trade_pairs 0 None (signal_positions r) = [] \<and>
        total_trades r = 0 \<and> success_rate r = 0 \<and> avg_return r = Fin 0"
    using r' p' rsi by (intro exI[of _ r'] conjI) simp_all
  show ?thesis using h A h' B by - (intro conjI, assumption+)
qed

text \<open>
  C4: the timeline of every evaluator is the run of the position state machine on the
  strategy's own entry and exit conditions: a bar is marked Sell only when the position
  is open before the bar and the exit condition holds at the bar, so no close is forced
  at the last bar.  The statistics are those of the Buy/Sell pairs closed by a Sell; when
  the timeline ends with an open position, its last signal is a Buy, the last bar is not
  a Sell, and there is one more Buy than there are Sells: the open position is in none
  of the pairs.
\<close>

theorem open_position_excluded:
  assumes "min_bars s \<le> length candles"
  shows "\<exists>r. evaluate s candles t = Inr r \<and>
    (let closes = map close candles;
         sig = signal_positions r;
         closed = trade_pairs 0 None sig;
         rets = map (trade_return closes) closed
     in length sig = length candles \<and>
        (\<forall>i. i < warm_up s \<and> i < length candles \<longrightarrow> sig ! i = 0) \<and>
        (\<forall>i. warm_up s \<le> i \<and> i < length candles \<longrightarrow>
           (\<exists>enter leave. conditions s closes i = Inr (enter, leave) \<and>
              sig ! i = mark (final_long False (take i sig)) enter leave)) \<and>
        (\<forall>i. i < length candles \<and> sig ! i = - 1 \<longrightarrow>
           final_long False (take i sig) \<and>
           (\<exists>enter. conditions s closes i = Inr (enter, True))) \<and>
        total_trades r = int (length closed) \<and>
        length closed = count_list sig (- 1) \<and>
        (\<forall>p \<in> set closed. sig ! snd p = - 1) \<and>
        success_rate r =
          (if closed = [] then 0
           else 100 * real (length (filter (\<lambda>x. xgt x t) rets)) / real (length closed)) \<and>
        avg_return r =
          (if closed = [] then Fin 0
           else xmul_by (xdiv_by (foldl xadd (Fin 0) rets) (real (length closed))) 100) \<and>
        (final_long False sig \<longrightarrow>
           last (filter (\<lambda>x. x \<noteq> 0) sig) = 1 \<and> last sig \<noteq> - 1 \<and>
           count_list sig 1 = Suc (count_list sig (- 1))))"
proof -
  let ?closes = "map close candles"
  obtain st where st: "evaluate s candles t = Inr (summary st)"
    "length (signals st) = length candles"
    "no_overlap False (signals st)"
    "trades st = int (length (trade_pairs 0 None (signals st)))"
    "profitables st = int (length (filter (\<lambda>r. xgt r t)
       (map (trade_return ?closes) (trade_pairs 0 None (signals st)))))"
    "total_ret st = foldl xadd (Fin 0)
       (map (trade_return ?closes) (trade_pairs 0 None (signals st)))"
    "\<forall>j. j < warm_up s \<and> j < length candles \<longrightarrow> signals st ! j = 0"
    using evaluate_timeline[OF assms, of t] by blast
  let ?sig = "signals st"
  have sig: "signal_positions (summary st) = ?sig" by (simp add: summary_def)
  obtain r' where r': "evaluate s candles t = Inr r'"
    "\<forall>i. warm_up s \<le> i \<and> i < length candles \<longrightarrow>
        (\<exists>enter leave. conditions s ?closes i = Inr (enter, leave) \<and>
           signal_positions r' ! i =
             mark (final_long False (take i (signal_positions r'))) enter leave)"
    using evaluate_marks[OF assms, of t] by blast
  from r'(1) st(1) have "r' = summary st" by simp
  with r'(2) sig have marks: "\<forall>i. warm_up s \<le> i \<and> i < length candles \<longrightarrow>
        (\<exists>enter leave. conditions s ?closes i = Inr (enter, leave) \<and>
           ?sig ! i = mark (final_long False (take i ?sig)) enter leave)"
    by simp
  have sold: "final_long False (take i ?sig) \<and> (\<exists>enter. conditions s ?closes i = Inr (enter, True))"
    if i: "i < length candles \<and> ?sig ! i = - 1" for i
  proof -
    have "warm_up s \<le> i"
    proof (rule ccontr)
      assume "\<not> warm_up s \<le> i"
      then have "i < warm_up s \<and> i < length candles" using i by simp
      with st(7) have "?sig ! i = 0" by blast
      with i show False by simp
    qed
    with marks i obtain enter leave where
      c: "conditions s ?closes i = Inr (enter, leave)"
      and m: "?sig ! i = mark (final_long False (take i ?sig)) enter leave"
      by blast
    from m i have "final_long False (take i ?sig) \<and> leave"
      by (auto simp: mark_def split: if_splits)
    with c show ?thesis by auto
  qed
  have len: "length (trade_pairs 0 None ?sig) = count_list ?sig (- 1)"
    using trade_pairs_length[of None ?sig 0] st(3) by simp
  have sells: "\<forall>p \<in> set (trade_pairs 0 None ?sig). ?sig ! snd p = - 1"
  proof
    fix p assume "p \<in> set (trade_pairs 0 None ?sig)"
    then have "(fst p, snd p) \<in> set (trade_pairs 0 None ?sig)" by simp
    from trade_pairs_bars[OF st(3) this] show "?sig ! snd p = - 1" by simp
  qed
  have open_facts: "last (filter (\<lambda>x. x \<noteq> 0) ?sig) = 1 \<and> last ?sig \<noteq> - 1 \<and>
      count_list ?sig 1 = Suc (count_list ?sig (- 1))" if fl: "final_long False ?sig"
  proof (intro conjI)
    show "last (filter (\<lambda>x. x \<noteq> 0) ?sig) = 1"
      using no_overlap_last[OF st(3) fl] final_long_some_buy[OF fl] by simp
    have "?sig \<noteq> []" using fl by auto
    then show "last ?sig \<noteq> - 1" by (rule final_long_last[OF fl])
    show "count_list ?sig 1 = Suc (count_list ?sig (- 1))"
      using no_overlap_counts[OF st(3)] fl by simp
  qed
  have stats: "total_trades (summary st) = int (length (trade_pairs 0 None ?sig))"
    "success_rate (summary st) =
      (if trade_pairs 0 None ?sig = [] then 0
       else 100 * real (length (filter (\<lambda>r. xgt r t)
              (map (trade_return ?closes) (trade_pairs 0 None ?sig))))
            / real (length (trade_pairs 0 None ?sig)))"
    "avg_return (summary st) =
      (if trade_pairs 0 None ?sig = [] then Fin 0
       else xmul_by (xdiv_by (foldl xadd (Fin 0)
              (map (trade_return ?closes) (trade_pairs 0 None ?sig)))
              (real (length (trade_pairs 0 None ?sig)))) 100)"
    by (rule summary_of_timeline[OF st(4-6)])+
  show ?thesis
    unfolding Let_def
  proof (intro exI[of _ "summary st"] conjI)
    show "evaluate s candles t = Inr (summary st)" by (rule st(1))
  qed (use st(2,7) marks sold len sells open_facts stats in \<open>simp_all add: sig\<close>)
qed

theorem open_position_excluded_witness:
  "min_bars RSI \<le> length rsi_open_example \<and>
   (\<exists>r. evaluate RSI rsi_open_example (1 / 100) = Inr r \<and>
        signal_positions r =
          [0, 0, 0, 0, 0, 0, 0, 0, 0, 0, 0, 0, 0, 0, 0, 1, 0, 0, - 1, 0, 1, 0] \<and>
        final_long False (signal_positions r) \<and>
        conditions RSI (map close rsi_open_example) 21 = Inr (True, False) \<and>
        final_long False (take 21 (signal_positions r)) \<and>
        signal_positions r ! 21 = mark True True False \<and>
        signal_positions r ! 21 = 0 \<and>
        conditions RSI (map close rsi_open_example) 18 = Inr (False, True) \<and>
        final_long False (take 18 (signal_positions r)) \<and>
        signal_positions r ! 18 = - 1 \<and>
        last (filter (\<lambda>x. x \<noteq> 0) (signal_positions r)) = 1 \<and>
        last (signal_positions r) = 0 \<and>
        count_list (signal_positions r) 1 = 2 \<and>
        count_list (signal_positions r) (- 1) = 1 \<and>
        trade_pairs 0 None (signal_positions r) = [(15, 18)] \<and>
        total_trades r = 1 \<and> success_rate r = 100 \<and> avg_return r = Fin (600 / 17))"
proof -
  have h: "min_bars RSI \<le> length rsi_open_example" by simp
  from open_position_excluded[OF h, of "1 / 100"] rsi_open_example_run
    rsi_open_example_conditions
  show ?thesis by (simp add: Let_def mark_def)
qed

text \<open>
  C5: for a fixed series, raising the threshold never raises the success rate of an
  evaluator, and changes neither the timeline, nor the number of trades, nor the average
  return.
\<close>

theorem success_rate_antitone:
  assumes "min_bars s \<le> length candles" and "t1 \<le> t2"
  shows "\<exists>r1 r2. evaluate s candles t1 = Inr r1 \<and> evaluate s candles t2 = Inr r2 \<and>
    success_rate r2 \<le> success_rate r1 \<and> total_trades r2 = total_trades r1 \<and>
    signal_positions r2 = signal_positions r1 \<and> avg_return r2 = avg_return r1"
proof -
  let ?closes = "map close candles"
  let ?init = "init_state (length candles)"
  obtain ds where ds:
    "\<forall>t. evaluate s candles t = result_of (scan ?closes t ds ?init)"
    using evaluate_as_scan[OF assms(1)] by blast
  obtain st0 where st0: "evaluate s candles t1 = Inr (summary st0)"
    "trades st0 = int (length (trade_pairs 0 None (signals st0)))"
    using evaluate_timeline[OF assms(1), of t1] by blast
  from st0(1) ds obtain st1 where st1: "scan ?closes t1 ds ?init = Inr st1"
    "summary st1 = summary st0"
    by (auto simp: result_of_def split: sum.splits)
  have "total_trades (summary st1) = total_trades (summary st0)" using st1(2) by simp
  then have nonneg: "0 \<le> trades st1" using st0(2) by (simp add: summary_def)
  have "(0::int) \<le> profitables ?init" by (simp add: init_state_def)
  from scan_threshold[OF assms(2) this st1(1)]
  obtain p where p: "scan ?closes t2 ds (?init\<lparr>profitables := 0\<rparr>) = Inr (st1\<lparr>profitables := p\<rparr>)"
    "p \<le> profitables st1" by blast
  have "?init\<lparr>profitables := 0\<rparr> = ?init" by (simp add: init_state_def)
  with p(1) have r2: "evaluate s candles t2 = Inr (summary (st1\<lparr>profitables := p\<rparr>))"
    using ds by (simp add: result_of_def)
  have r1: "evaluate s candles t1 = Inr (summary st1)" using st0(1) st1(2) by simp
  have "real_of_int p / real_of_int (trades st1) * 100
          \<le> real_of_int (profitables st1) / real_of_int (trades st1) * 100"
    using p(2) nonneg by (intro mult_right_mono divide_right_mono) simp_all
  then have "success_rate (summary (st1\<lparr>profitables := p\<rparr>)) \<le> success_rate (summary st1)"
    by (simp add: summary_def)
  with r1 r2 show ?thesis
    by (intro exI[of _ "summary st1"] exI[of _ "summary (st1\<lparr>profitables := p\<rparr>)"])
       (simp add: summary_def)
qed

theorem success_rate_antitone_witness:
  "min_bars RSI \<le> length rsi_example \<and> (1 / 100 :: real) \<le> 1 / 2 \<and>
   (\<exists>r1 r2. evaluate RSI rsi_example (1 / 100) = Inr r1 \<and>
        evaluate RSI rsi_example (1 / 2) = Inr r2 \<and>
        success_rate r2 \<le> success_rate r1 \<and> success_rate r1 = 100 \<and> success_rate r2 = 0 \<and>
        total_trades r2 = total_trades r1 \<and> signal_positions r2 = signal_positions r1 \<and>
        avg_return r2 = avg_return r1)"
proof -
  have h: "min_bars RSI \<le> length rsi_example" by simp
  have le: "(1 / 100 :: real) \<le> 1 / 2" by simp
  from success_rate_antitone[OF h le] rsi_example_run rsi_example_run_half
  show ?thesis by simp
qed

text \<open>
  C8: every evaluator is the scan of the bars from its warm-up offset on (15 for RSI, 27
  for MACD, 20 for Bollinger), its timeline is unmarked below the offset, and the MACD
  line starts from the moving averages seeded with the closes at index 11 and 25, the
  signal line from the first MACD value.
\<close>

theorem warm_up_offsets:
  assumes "min_bars s \<le> length candles"
  shows "warm_up RSI = 15 \<and> warm_up MACD = 27 \<and> warm_up Bollinger = 20 \<and>
    (\<exists>ds. map fst ds = [warm_up s ..< length candles] \<and>
       (\<forall>t. evaluate s candles t =
          result_of (scan (map close candles) t ds (init_state (length candles))))) \<and>
    (\<exists>r. evaluate s candles t = Inr r \<and>
       (\<forall>j. j < warm_up s \<and> j < length candles \<longrightarrow> signal_positions r ! j = 0)) \<and>
    (s = MACD \<longrightarrow>
       (\<exists>m sg. macd_line (map close candles) = Inr m \<and> signal_line m = Inr sg \<and>
          length m = length candles - 26 \<and> length sg = length m \<and>
          hd m = (close (candles ! 26) * (2 / 13) + close (candles ! 11) * (1 - 2 / 13))
                 - (close (candles ! 26) * (2 / 27) + close (candles ! 25) * (1 - 2 / 27)) \<and>
          hd sg = hd m))"
proof (intro conjI impI)
  show "warm_up RSI = 15" "warm_up MACD = 27" "warm_up Bollinger = 20" by simp_all
  show "\<exists>ds. map fst ds = [warm_up s ..< length candles] \<and>
       (\<forall>t. evaluate s candles t =
          result_of (scan (map close candles) t ds (init_state (length candles))))"
    by (rule evaluate_as_scan[OF assms])
  obtain st where "evaluate s candles t = Inr (summary st)"
    "\<forall>j. j < warm_up s \<and> j < length candles \<longrightarrow> signals st ! j = 0"
    using evaluate_timeline[OF assms, of t] by blast
  then show "\<exists>r. evaluate s candles t = Inr r \<and>
       (\<forall>j. j < warm_up s \<and> j < length candles \<longrightarrow> signal_positions r ! j = 0)"
    by (intro exI[of _ "summary st"]) (simp add: summary_def)
  show "\<exists>m sg. macd_line (map close candles) = Inr m \<and> signal_line m = Inr sg \<and>
          length m = length candles - 26 \<and> length sg = length m \<and>
          hd m = (close (candles ! 26) * (2 / 13) + close (candles ! 11) * (1 - 2 / 13))
                 - (close (candles ! 26) * (2 / 27) + close (candles ! 25) * (1 - 2 / 27)) \<and>
          hd sg = hd m" if "s = MACD"
    using macd_seeds[of "map close candles"] assms that by simp
qed

theorem warm_up_offsets_witness:
  "min_bars MACD \<le> length macd_example \<and>
   (\<exists>ds. map fst ds = [27 ..< 30] \<and>
      (\<forall>t. evaluate MACD macd_example t =
         result_of (scan (map close macd_example) t ds (init_state 30)))) \<and>
   (\<exists>r. evaluate MACD macd_example (1 / 100) = Inr r \<and>
      take 28 (signal_positions r) = replicate 28 0 \<and> signal_positions r ! 28 = 1) \<and>
   (\<exists>m sg. macd_line (map close macd_example) = Inr m \<and> signal_line m = Inr sg \<and>
      length m = 4 \<and> length sg = 4 \<and> hd m = 0 \<and> hd sg = 0) \<and>
   (\<exists>r. evaluate RSI rsi_example (1 / 100) = Inr r \<and>
      take 15 (signal_positions r) = replicate 15 0 \<and> signal_positions r ! 15 = 1) \<and>
   (\<exists>r. evaluate Bollinger bollinger_example (1 / 100) = Inr r \<and>
      take 20 (signal_positions r) = replicate 20 0 \<and> signal_positions r ! 20 = 1)"
proof -
  have h: "min_bars MACD \<le> length macd_example" by (simp add: macd_example_def)
  have len: "length macd_example = 30" by (simp add: macd_example_def)
  have c: "close (macd_example ! 26) = 100" "close (macd_example ! 11) = 100"
    "close (macd_example ! 25) = 100"
    by (simp_all add: macd_example_def)
  have r15: "replicate 15 (0::int) = [0, 0, 0, 0, 0, 0, 0, 0, 0, 0, 0, 0, 0, 0, 0]"
    by (simp add: numeral_eq_Suc)
  have r20: "replicate 20 (0::int) =
      [0, 0, 0, 0, 0, 0, 0, 0, 0, 0, 0, 0, 0, 0, 0, 0, 0, 0, 0, 0]"
    by (simp add: numeral_eq_Suc)
  from warm_up_offsets[OF h, of "1 / 100"] macd_example_run rsi_example_run
    bollinger_example_run h
  show ?thesis by (auto simp: len c replicate_28 r15 r20)
qed

text \<open>
  C9: at every bar the Bollinger loop visits, the middle band is the 20-bar simple moving
  average, the upper and the lower band are the middle plus and minus twice the
  population standard deviation of the trailing 20 closes, and lower \<le> middle \<le> upper.
\<close>

theorem bollinger_band_order:
  assumes "20 \<le> i" and "i < length closes"
  shows "\<exists>lower ma upper.
    bollinger_bands closes i 20 = Inr (lower, ma, upper) \<and>
    lower \<le> ma \<and> ma \<le> upper \<and>
    sma closes (int i) 20 = Inr ma \<and>
    ma = mean (trailing closes i 20) \<and>
    upper = ma + 2 * population_stddev (trailing closes i 20) \<and>
    lower = ma - 2 * population_stddev (trailing closes i 20)"
proof -
  let ?w = "trailing closes i 20"
  have "0 \<le> (\<Sum>x\<leftarrow>?w. (x - mean ?w)\<^sup>2)"
    by (rule sum_list_nonneg) auto
  then have sd: "0 \<le> population_stddev ?w"
    by (simp add: population_stddev_def)
  have "sma closes (int i) 20 = Inr (mean ?w)"
    using bollinger_bands_value[OF assms]
    by (auto simp: bollinger_bands_def Let_def split: sum.splits)
  with sd bollinger_bands_value[OF assms] show ?thesis by simp
qed

theorem bollinger_band_order_witness:
  "(20::nat) \<le> 20 \<and> 20 < length (map close main_candles) \<and>
   (\<exists>lower ma upper.
      bollinger_bands (map close main_candles) 20 20 = Inr (lower, ma, upper) \<and>
      lower \<le> ma \<and> ma \<le> upper \<and> ma = 1007 / 10 \<and>
      sma (map close main_candles) 20 20 = Inr ma)"
proof -
  have h: "(20::nat) \<le> 20" "20 < length (map close main_candles)"
    by (simp_all add: main_candles_def)
  have m: "mean (trailing (map close main_candles) 20 20) = 1007 / 10"
    by (simp add: mean_def trailing_def main_candles_def)
  from bollinger_band_order[OF h] m h show ?thesis by auto
qed

text \<open>
  C1: on a series shorter than its warm-up the RSI and the Bollinger evaluator return
  the zero summary, and the MACD evaluator reads outside a vector.
\<close>

theorem short_series:
  "(length candles \<le> 15 \<longrightarrow>
      run_rsi_strategy candles t = Inr (zero_summary (length candles))) \<and>
   (length candles \<le> 20 \<longrightarrow>
      run_bollinger_strategy candles t = Inr (zero_summary (length candles))) \<and>
   (length candles < 27 \<longrightarrow> run_macd_strategy candles t = Inl OutOfRange)"
  using run_macd_short[of candles t]
  by (simp add: run_rsi_strategy_def run_bollinger_strategy_def zero_summary_def
      summary_def init_state_def)

theorem short_series_witness:
  "length (take 15 main_candles) \<le> 15 \<and>
   run_rsi_strategy (take 15 main_candles) (1 / 100) = Inr (zero_summary 15) \<and>
   length (take 15 main_candles) \<le> 20 \<and>
   run_bollinger_strategy (take 15 main_candles) (1 / 100) = Inr (zero_summary 15) \<and>
   length (take 26 main_candles) < 27 \<and>
   run_macd_strategy (take 26 main_candles) (1 / 100) = Inl OutOfRange \<and>
   length ([] :: Candle list) < 27 \<and>
   run_macd_strategy [] (1 / 100) = Inl OutOfRange"
proof -
  have l: "length (take 15 main_candles) = 15" "length (take 26 main_candles) = 26"
    by (simp_all add: main_candles_def)
  from short_series[of "take 15 main_candles" "1 / 100"]
    short_series[of "take 26 main_candles" "1 / 100"]
    short_series[of "[]" "1 / 100"] l
  show ?thesis by simp
qed

end
